theory Spec2Isabelle
  imports Main "HOL-Library.Signed_Division" "HOL-Library.Monad_Syntax"
begin

section \<open>Cell states and the update rule\<close>

text \<open>
  All three programs store a cell as a C \<^verbatim>\<open>int\<close> that is \<^verbatim>\<open>ALIVE\<close> (1) or
  \<^verbatim>\<open>DEAD\<close> (0). Cells are modelled as \<open>int\<close>. C's \<^verbatim>\<open>/\<close> and \<^verbatim>\<open>%\<close> truncate
  towards zero: they are \<open>sdiv\<close> and \<open>smod\<close>.

  An \<^verbatim>\<open>int\<close> has 32 bits. A cell that was never assigned holds what \<^verbatim>\<open>malloc\<close>
  left there, which can be any \<^verbatim>\<open>int\<close>, so the sum of eight cells can leave the
  range of \<^verbatim>\<open>int\<close>; the machine addition keeps the low 32 bits of the two's
  complement representation, and so does the model (\<open>wrap_int\<close>). The sum of
  eight cells that are 0 or 1 is at most 8 and is not changed by it.
\<close>

definition wrap_int :: "int \<Rightarrow> int" where
  "wrap_int v = (v + 2 ^ 31) mod 2 ^ 32 - 2 ^ 31"

definition ALIVE :: int where
  "ALIVE = 1"

definition DEAD :: int where
  "DEAD = 0"

type_synonym matrix = "int list list"

text \<open>The assignment \<^verbatim>\<open>m[i][j] = v\<close>.\<close>

definition set_cell :: "matrix \<Rightarrow> nat \<Rightarrow> nat \<Rightarrow> int \<Rightarrow> matrix" where
  "set_cell m i j v = m[i := (m ! i)[j := v]]"

text \<open>
  The nested \<^verbatim>\<open>if\<close> that all three update loops share: \<open>cell\<close> is the current
  state of the cell, \<open>n\<close> the sum of its eight neighbours.
\<close>

definition apply_rules :: "int \<Rightarrow> int \<Rightarrow> int" where
  "apply_rules cell n =
     (if cell = ALIVE
      then (if n = 2 \<or> n = 3 then ALIVE else DEAD)
      else (if n = 3 then ALIVE else DEAD))"

section \<open>game.c: the single-threaded program\<close>

text \<open>
  \<^verbatim>\<open>new_matrix\<close> returns \<open>s\<close> rows of \<open>s\<close> cells from \<^verbatim>\<open>malloc\<close>; their contents
  are whatever the allocator left there, given here by the parameter \<open>u\<close>.
\<close>

definition new_matrix :: "(nat \<Rightarrow> nat \<Rightarrow> int) \<Rightarrow> int \<Rightarrow> matrix" where
  "new_matrix u s = map (\<lambda>i. map (\<lambda>j. u i j) [0..<nat s]) [0..<nat s]"

definition read_neighbor :: "matrix \<Rightarrow> int \<Rightarrow> int \<Rightarrow> int \<Rightarrow> int" where
  "read_neighbor m s i j =
     (let i' = (if i < 0 then s - 1 else if i = s then 0 else i);
          j' = (if j < 0 then s - 1 else if j = s then 0 else j)
      in m ! nat i' ! nat j')"

definition alive_neighbors :: "matrix \<Rightarrow> int \<Rightarrow> int \<Rightarrow> int \<Rightarrow> int" where
  "alive_neighbors from s i j =
     wrap_int
      (read_neighbor from s (i - 1) (j - 1) +
       read_neighbor from s (i - 1) j +
       read_neighbor from s (i - 1) (j + 1) +
       read_neighbor from s i (j - 1) +
       read_neighbor from s i (j + 1) +
       read_neighbor from s (i + 1) (j - 1) +
       read_neighbor from s (i + 1) j +
       read_neighbor from s (i + 1) (j + 1))"

text \<open>
  The two nested \<^verbatim>\<open>for\<close> loops of \<^verbatim>\<open>process_generation\<close>, over the rows \<open>is\<close>
  (all rows in game.c, a thread's subrange in game\_omp.c) and the columns \<open>0..s-1\<close>.
\<close>

definition process_rows :: "matrix \<Rightarrow> matrix \<Rightarrow> int \<Rightarrow> nat list \<Rightarrow> matrix" where
  "process_rows from to s is =
     fold (\<lambda>i. fold (\<lambda>j to'.
             set_cell to' i j
               (apply_rules (from ! i ! j) (alive_neighbors from s (int i) (int j))))
           [0..<nat s]) is to"

definition process_generation :: "matrix \<Rightarrow> matrix \<Rightarrow> int \<Rightarrow> matrix" where
  "process_generation from to s = process_rows from to s [0..<nat s]"

text \<open>\<^verbatim>\<open>cells_alive\<close>: the counting loops, with the counter as the folded state.\<close>

definition cells_alive :: "matrix \<Rightarrow> int \<Rightarrow> int" where
  "cells_alive m s =
     fold (\<lambda>i. fold (\<lambda>j alives. if m ! i ! j = ALIVE then alives + 1 else alives)
                 [0..<nat s]) [0..<nat s] 0"

text \<open>
  The generation loop of \<^verbatim>\<open>main\<close>: each iteration allocates \<^verbatim>\<open>next_gen\<close>
  (contents \<open>u n\<close> in iteration \<open>n\<close>), fills it from \<^verbatim>\<open>matrix\<close> and makes it the
  current matrix.
\<close>

fun run_generations :: "(nat \<Rightarrow> nat \<Rightarrow> nat \<Rightarrow> int) \<Rightarrow> int \<Rightarrow> nat \<Rightarrow> matrix \<Rightarrow> matrix" where
  "run_generations u s 0 m = m"
| "run_generations u s (Suc n) m =
     process_generation (run_generations u s n m) (new_matrix (u n) s) s"

text \<open>
  The C library's \<^verbatim>\<open>atoi\<close>: leading white space, an optional sign, then decimal
  digits up to the first character that is not one; 0 when there is no digit.
  The GNU C library computes it as \<^verbatim>\<open>(int) strtol(nptr, NULL, 10)\<close>: \<^verbatim>\<open>strtol\<close>
  returns \<^verbatim>\<open>LONG_MIN\<close> or \<^verbatim>\<open>LONG_MAX\<close> (64 bits) when the number is outside the
  range of \<^verbatim>\<open>long\<close>, and the conversion to \<^verbatim>\<open>int\<close> keeps the low 32 bits.
\<close>

definition is_space :: "char \<Rightarrow> bool" where
  "is_space c = (of_char c = (32::nat) \<or> (9 \<le> (of_char c :: nat) \<and> (of_char c :: nat) \<le> 13))"

definition is_digit :: "char \<Rightarrow> bool" where
  "is_digit c = (48 \<le> (of_char c :: nat) \<and> (of_char c :: nat) \<le> 57)"

fun atoi_digits :: "int \<Rightarrow> string \<Rightarrow> int" where
  "atoi_digits acc [] = acc"
| "atoi_digits acc (c # cs) =
     (if is_digit c then atoi_digits (acc * 10 + (int (of_char c) - 48)) cs else acc)"

definition strtol :: "string \<Rightarrow> int" where
  "strtol str =
     (let v = (case dropWhile is_space str of
                 [] \<Rightarrow> 0
               | c # cs \<Rightarrow>
                   if c = CHR ''-'' then - atoi_digits 0 cs
                   else if c = CHR ''+'' then atoi_digits 0 cs
                   else atoi_digits 0 (c # cs))
      in max (- (2 ^ 63)) (min (2 ^ 63 - 1) v))"

definition atoi :: "string \<Rightarrow> int" where
  "atoi str = wrap_int (strtol str)"

definition EXIT_SUCCESS :: int where
  "EXIT_SUCCESS = 0"

definition EXIT_FAILURE :: int where
  "EXIT_FAILURE = 1"

text \<open>
  \<^verbatim>\<open>random_number\<close>, as a function of the value \<open>r\<close> that \<^verbatim>\<open>rand()\<close> returned.
\<close>

definition random_number :: "int \<Rightarrow> int" where
  "random_number r = (if r smod 2 = 0 then ALIVE else DEAD)"

text \<open>
  What a run of \<^verbatim>\<open>main\<close> in game.c does that can be observed: its exit status, the
  sizes it passed to \<^verbatim>\<open>new_matrix\<close> in order, and the number of live cells it
  printed (if it got that far). \<open>rand k\<close> is the value of the \<open>k\<close>-th call of
  \<^verbatim>\<open>rand()\<close>, \<open>u0\<close> the contents of the first allocation and \<open>u n\<close> those of the
  allocation in iteration \<open>n\<close> of the generation loop.
\<close>

record run_report =
  exit_status :: int
  allocations :: "int list"
  alive_printed :: "int option"

definition game_main ::
  "(nat \<Rightarrow> int) \<Rightarrow> (nat \<Rightarrow> nat \<Rightarrow> int) \<Rightarrow> (nat \<Rightarrow> nat \<Rightarrow> nat \<Rightarrow> int) \<Rightarrow> string list
     \<Rightarrow> run_report" where
  "game_main rand u0 u argv =
     (if int (length argv) < 3
      then \<lparr>exit_status = EXIT_FAILURE, allocations = [], alive_printed = None\<rparr>
      else
        let size = atoi (argv ! 1); generations = atoi (argv ! 2) in
        if size = 0 \<or> generations = 0
        then \<lparr>exit_status = EXIT_FAILURE, allocations = [], alive_printed = None\<rparr>
        else
          let matrix = new_matrix u0 size;
              matrix = fold (\<lambda>i. fold (\<lambda>j m.
                           set_cell m i j (random_number (rand (i * nat size + j))))
                         [0..<nat size]) [0..<nat size] matrix;
              final = run_generations u size (nat generations) matrix
          in \<lparr>exit_status = EXIT_SUCCESS,
              allocations = size # replicate (nat generations) size,
              alive_printed = Some (cells_alive final size)\<rparr>)"

section \<open>game\_omp.c: the OpenMP program\<close>

text \<open>
  The row bounds a thread computes in the \<^verbatim>\<open>else\<close> branch of
  \<^verbatim>\<open>process_generation\<close> (more than one thread), together with the new value of
  the global flag \<^verbatim>\<open>alert_extra_work\<close>. \<^verbatim>\<open>main\<close> sets \<^verbatim>\<open>arg->start\<close> to the
  thread number.
\<close>

definition thread_bounds :: "int \<Rightarrow> int \<Rightarrow> int \<Rightarrow> int \<Rightarrow> int \<times> int \<times> int" where
  "thread_bounds alert_extra_work t_number s threads =
     (let rows = s sdiv threads;
          start = rows * t_number;
          end = start + rows;
          dif = s - threads * rows
      in if alert_extra_work = 0 \<and> t_number = 0 \<and> s smod 2 \<noteq> 0 \<and> dif > 0
         then (start, end + dif, 1)
         else (start, end, alert_extra_work))"

text \<open>
  \<^verbatim>\<open>process_generation(arg)\<close> of game\_omp.c for one thread: the state is the shared
  destination matrix and the global flag.
\<close>

definition process_generation_omp ::
  "matrix \<Rightarrow> int \<Rightarrow> int \<Rightarrow> int \<Rightarrow> matrix \<times> int \<Rightarrow> matrix \<times> int" where
  "process_generation_omp from s threads t_number st =
     (case st of (to, alert_extra_work) \<Rightarrow>
        if threads = 1
        then (process_rows from to s [0..<nat s], alert_extra_work)
        else
          (case thread_bounds alert_extra_work t_number s threads of
             (start, end, alert') \<Rightarrow>
               (process_rows from to s [nat start..<nat end], alert')))"

text \<open>
  The parallel region of one generation: every thread \<open>0..thread_count-1\<close> runs
  \<^verbatim>\<open>process_generation\<close> on the same two matrices. A cell's new value depends on
  \<open>from\<close> only and only thread 0 can change the flag, so the threads are run here
  one after the other.
\<close>

definition parallel_region :: "matrix \<Rightarrow> int \<Rightarrow> int \<Rightarrow> matrix \<times> int \<Rightarrow> matrix \<times> int" where
  "parallel_region from s thread_count st =
     fold (\<lambda>t. process_generation_omp from s thread_count (int t)) [0..<nat thread_count] st"

text \<open>The rows of the destination that thread \<open>t\<close> writes in one generation.\<close>

definition thread_rows :: "int \<Rightarrow> int \<Rightarrow> int \<Rightarrow> int \<Rightarrow> nat set" where
  "thread_rows alert_extra_work t_number s threads =
     (case thread_bounds alert_extra_work t_number s threads of
        (start, end, alert') \<Rightarrow> set [nat start..<nat end])"

section \<open>game\_mpi.c: the MPI program\<close>

text \<open>
  The struct \<^verbatim>\<open>twoD_array_t\<close>. \<open>elems\<close> is the list of the rows that
  \<^verbatim>\<open>build_array\<close> allocated. The globals \<^verbatim>\<open>nprocs\<close> and \<^verbatim>\<open>myid\<close> are passed
  as arguments.
\<close>

record twoD_array =
  rows :: int
  cols :: int
  elems :: matrix

subsection \<open>The partition of the rows among the processes\<close>

text \<open>
  The five functions are arithmetic on C \<^verbatim>\<open>int\<close>s, modelled on \<open>int\<close>: a board of
  \<open>size\<close> columns has to be allocated, so \<open>size + nprocs\<close> stays far inside the
  range of a 32-bit \<^verbatim>\<open>int\<close> in any run. \<^verbatim>\<open>process_owning_row\<close> divides by
  \<^verbatim>\<open>rows_per_process\<close>; \<^verbatim>\<open>print_board\<close> calls it for the rows \<open>1..size\<close> only,
  and for \<open>size \<ge> 1\<close> the divisor is at least 1 (lemma \<open>rows_per_process_pos\<close>).
\<close>

definition rows_per_process :: "int \<Rightarrow> int \<Rightarrow> int" where
  "rows_per_process nprocs sz = (sz + (nprocs - 1)) sdiv nprocs"

definition local_rows :: "int \<Rightarrow> int \<Rightarrow> int \<Rightarrow> int" where
  "local_rows nprocs proc_id sz =
     (if proc_id = nprocs - 1
      then sz - ((nprocs - 1) * rows_per_process nprocs sz)
      else rows_per_process nprocs sz)"

definition local_start_row :: "int \<Rightarrow> int \<Rightarrow> int \<Rightarrow> int" where
  "local_start_row nprocs proc_id sz = proc_id * rows_per_process nprocs sz + 1"

definition local_end_row :: "int \<Rightarrow> int \<Rightarrow> int \<Rightarrow> int" where
  "local_end_row nprocs proc_id sz =
     (if proc_id = nprocs - 1
      then sz + 1
      else local_start_row nprocs proc_id sz + rows_per_process nprocs sz)"

definition process_owning_row :: "int \<Rightarrow> int \<Rightarrow> int \<Rightarrow> int" where
  "process_owning_row nprocs row sz = (row - 1) sdiv rows_per_process nprocs sz"

subsection \<open>Boards\<close>

text \<open>
  \<^verbatim>\<open>build_array\<close>: the cells come from \<^verbatim>\<open>malloc\<close> and hold what the allocator
  left there (\<open>u\<close>). The allocation is taken to succeed.
\<close>

definition build_array :: "(nat \<Rightarrow> nat \<Rightarrow> int) \<Rightarrow> int \<Rightarrow> int \<Rightarrow> twoD_array" where
  "build_array u nrows ncols =
     \<lparr>rows = nrows, cols = ncols,
      elems = map (\<lambda>r. map (\<lambda>c. u r c) [0..<nat ncols]) [0..<nat nrows]\<rparr>"

definition clear_border :: "twoD_array \<Rightarrow> twoD_array" where
  "clear_border board =
     board\<lparr>elems :=
       fold (\<lambda>r e. set_cell (set_cell e r 0 0) r (nat (cols board - 1)) 0)
         [0..<nat (rows board)]
         (fold (\<lambda>c e. set_cell (set_cell e 0 c 0) (nat (rows board - 1)) c 0)
            [0..<nat (cols board)] (elems board))\<rparr>"

text \<open>
  \<^verbatim>\<open>random_board\<close>: every process draws the same \<open>size * size\<close> numbers from
  \<^verbatim>\<open>rand()\<close> after \<^verbatim>\<open>srand(seed)\<close> and keeps those of its own rows. \<open>rnd k\<close> is
  the \<open>k\<close>-th number drawn, \<open>rand_max\<close> the library's \<^verbatim>\<open>RAND_MAX\<close>.
\<close>

definition temp_cell :: "int \<Rightarrow> (nat \<Rightarrow> int) \<Rightarrow> int \<Rightarrow> nat \<Rightarrow> nat \<Rightarrow> int" where
  "temp_cell rand_max rnd sz i j =
     (if rnd ((i - 1) * nat sz + (j - 1)) < rand_max sdiv 2 then 0 else 1)"

definition random_board ::
  "int \<Rightarrow> (nat \<Rightarrow> int) \<Rightarrow> (nat \<Rightarrow> nat \<Rightarrow> int) \<Rightarrow> int \<Rightarrow> int \<Rightarrow> int \<Rightarrow> twoD_array" where
  "random_board rand_max rnd u nprocs myid sz =
     (let start_row = local_start_row nprocs myid sz;
          end_row = local_end_row nprocs myid sz;
          board = build_array u (local_rows nprocs myid sz + 2) (sz + 2);
          filled =
            fold (\<lambda>i. fold (\<lambda>j e.
                    if start_row \<le> int i \<and> int i < end_row
                    then set_cell e (nat (int i - start_row + 1)) j
                           (temp_cell rand_max rnd sz i j)
                    else e)
                  [1..<nat (sz + 1)])
              [1..<nat (sz + 1)] (elems board)
      in clear_border (board\<lparr>elems := filled\<rparr>))"

subsection \<open>The local step of \<^verbatim>\<open>update_board\<close>\<close>

definition nbrs :: "matrix \<Rightarrow> nat \<Rightarrow> nat \<Rightarrow> int" where
  "nbrs e i j =
     wrap_int
      (e ! (i - 1) ! (j - 1) +
       e ! (i - 1) ! j +
       e ! (i - 1) ! (j + 1) +
       e ! i ! (j - 1) +
       e ! i ! (j + 1) +
       e ! (i + 1) ! (j - 1) +
       e ! (i + 1) ! j +
       e ! (i + 1) ! (j + 1))"

text \<open>
  The loops \<^verbatim>\<open>for i = 1 .. board->rows-2\<close>, \<^verbatim>\<open>for j = 1 .. board->cols-2\<close>: they
  read \<^verbatim>\<open>board\<close> and assign to \<^verbatim>\<open>new_board->elems[i][j]\<close>.
\<close>

definition update_cells :: "twoD_array \<Rightarrow> twoD_array \<Rightarrow> twoD_array" where
  "update_cells board new_board =
     new_board\<lparr>elems :=
       fold (\<lambda>i. fold (\<lambda>j e.
               set_cell e i j (apply_rules (elems board ! i ! j) (nbrs (elems board) i j)))
             [1..<nat (cols board - 1)])
         [1..<nat (rows board - 1)] (elems new_board)\<rparr>"

text \<open>
  \<^verbatim>\<open>update_board\<close> receives the two boards as pointers. With the boards in a
  memory indexed by address, the same loops read \<^verbatim>\<open>board\<close> and assign to
  \<^verbatim>\<open>new_board\<close> through the memory at every step; \<open>update_cells\<close> above is what
  they compute when the two pointers differ (lemma \<open>update_cells_at_distinct\<close>).
\<close>

type_synonym memory = "nat \<Rightarrow> twoD_array"

definition update_cells_at :: "nat \<Rightarrow> nat \<Rightarrow> memory \<Rightarrow> memory" where
  "update_cells_at board new_board mem =
     fold (\<lambda>i. fold (\<lambda>j mem'.
             mem'(new_board := (mem' new_board)\<lparr>elems :=
               set_cell (elems (mem' new_board)) i j
                 (apply_rules (elems (mem' board) ! i ! j) (nbrs (elems (mem' board)) i j))\<rparr>))
           [1..<nat (cols (mem board) - 1)])
       [1..<nat (rows (mem board) - 1)] mem"

subsection \<open>The halo exchange of \<^verbatim>\<open>update_board\<close>\<close>

text \<open>
  A message is the list of \<^verbatim>\<open>int\<close>s of its buffer. The send buffer
  \<^verbatim>\<open>&(a->elems[r][1])\<close> of \<open>n\<close> cells exists when row \<open>r\<close> is one of the rows that
  were allocated and holds \<open>n\<close> cells after column 0; a buffer outside the array
  is an invalid memory access, \<open>None\<close>.
\<close>

definition row_buffer :: "twoD_array \<Rightarrow> int \<Rightarrow> int \<Rightarrow> int list option" where
  "row_buffer a r n =
     (if 0 \<le> r \<and> nat r < length (elems a) \<and> 0 \<le> n \<and> 1 + nat n \<le> length (elems a ! nat r)
      then Some (take (nat n) (drop 1 (elems a ! nat r)))
      else None)"

text \<open>
  Completing \<^verbatim>\<open>MPI_Irecv(&(a->elems[r][1]), n, ...)\<close> with the message \<open>msg\<close>: the
  cells of the message overwrite the receive buffer from column 1 on. A message
  longer than \<open>n\<close> or a buffer outside the array is an error.
\<close>

definition store_row :: "twoD_array \<Rightarrow> int \<Rightarrow> int \<Rightarrow> int list \<Rightarrow> twoD_array option" where
  "store_row a r n msg =
     (if 0 \<le> r \<and> nat r < length (elems a) \<and> 0 \<le> n \<and> 1 + nat n \<le> length (elems a ! nat r)
         \<and> length msg \<le> nat n
      then Some (a\<lparr>elems := (elems a)[nat r :=
                  take 1 (elems a ! nat r) @ msg @ drop (1 + length msg) (elems a ! nat r)]\<rparr>)
      else None)"

text \<open>
  The exchange as process \<open>myid\<close> sees it, \<open>bs\<close> being the boards of all processes
  when the generation starts. The message received from \<open>myid - 1\<close> is the one
  that process sends to its neighbour below (its row \<open>local_rows\<close>), the message
  received from \<open>myid + 1\<close> the one that process sends to its neighbour above (its
  row 1); source and tag identify them. The process's own two sends read rows
  \<open>1\<close> and \<open>local_rows\<close> of its board.
\<close>

definition halo_exchange :: "int \<Rightarrow> twoD_array list \<Rightarrow> int \<Rightarrow> twoD_array option" where
  "halo_exchange nprocs bs myid =
     (let board = bs ! nat myid; sz = cols board - 2 in
      do {
        b1 \<leftarrow> (if myid \<noteq> 0
               then do {
                 let above = bs ! nat (myid - 1);
                 let size_above = cols above - 2;
                 msg \<leftarrow> row_buffer above (local_rows nprocs (myid - 1) size_above) size_above;
                 store_row board 0 sz msg }
               else Some board);
        b2 \<leftarrow> (if myid \<noteq> nprocs - 1
               then do {
                 let below = bs ! nat (myid + 1);
                 msg \<leftarrow> row_buffer below 1 (cols below - 2);
                 store_row b1 (local_rows nprocs myid sz + 1) sz msg }
               else Some b1);
        _ \<leftarrow> (if myid \<noteq> 0 then row_buffer board 1 sz else Some []);
        _ \<leftarrow> (if myid \<noteq> nprocs - 1
              then row_buffer board (local_rows nprocs myid sz) sz else Some []);
        Some b2
      })"

text \<open>The exchange of one generation, in all processes.\<close>

definition exchange :: "int \<Rightarrow> twoD_array list \<Rightarrow> twoD_array list option" where
  "exchange nprocs bs = those (map (\<lambda>r. halo_exchange nprocs bs (int r)) [0..<nat nprocs])"

subsection \<open>The run\<close>

text \<open>
  The state of the run is the list of the processes' \<^verbatim>\<open>board\<close>s and the list of
  their \<^verbatim>\<open>new_board\<close>s. One iteration of the loop in \<^verbatim>\<open>main\<close> calls
  \<^verbatim>\<open>update_board\<close> (exchange, then the local step) and swaps the two pointers.
\<close>

definition generation ::
  "int \<Rightarrow> twoD_array list \<times> twoD_array list \<Rightarrow> (twoD_array list \<times> twoD_array list) option" where
  "generation nprocs st =
     (case st of (bs, nbs) \<Rightarrow>
        do {
          bs' \<leftarrow> exchange nprocs bs;
          Some (map (\<lambda>(b, nb). update_cells b nb) (zip bs' nbs), bs')
        })"

fun generations ::
  "int \<Rightarrow> nat \<Rightarrow> twoD_array list \<times> twoD_array list
     \<Rightarrow> (twoD_array list \<times> twoD_array list) option" where
  "generations nprocs 0 st = Some st"
| "generations nprocs (Suc n) st = generations nprocs n st \<bind> generation nprocs"

text \<open>
  The boards before the loop: \<^verbatim>\<open>board\<close> from \<^verbatim>\<open>random_board\<close>, \<^verbatim>\<open>new_board\<close> from
  \<^verbatim>\<open>build_array\<close> and \<^verbatim>\<open>clear_border\<close>. \<open>u1 r\<close> and \<open>u2 r\<close> are the uninitialised
  contents of the two allocations of process \<open>r\<close>.
\<close>

definition initial_boards ::
  "int \<Rightarrow> (nat \<Rightarrow> int) \<Rightarrow> (nat \<Rightarrow> nat \<Rightarrow> nat \<Rightarrow> int) \<Rightarrow> (nat \<Rightarrow> nat \<Rightarrow> nat \<Rightarrow> int)
     \<Rightarrow> int \<Rightarrow> int \<Rightarrow> twoD_array list \<times> twoD_array list" where
  "initial_boards rand_max rnd u1 u2 nprocs sz =
     (map (\<lambda>r. random_board rand_max rnd (u1 r) nprocs (int r) sz) [0..<nat nprocs],
      map (\<lambda>r. clear_border
                 (build_array (u2 r) (local_rows nprocs (int r) sz + 2) (sz + 2)))
        [0..<nat nprocs])"

definition mpi_run ::
  "int \<Rightarrow> (nat \<Rightarrow> int) \<Rightarrow> (nat \<Rightarrow> nat \<Rightarrow> nat \<Rightarrow> int) \<Rightarrow> (nat \<Rightarrow> nat \<Rightarrow> nat \<Rightarrow> int)
     \<Rightarrow> int \<Rightarrow> int \<Rightarrow> nat \<Rightarrow> (twoD_array list \<times> twoD_array list) option" where
  "mpi_run rand_max rnd u1 u2 nprocs sz steps =
     generations nprocs steps (initial_boards rand_max rnd u1 u2 nprocs sz)"

text \<open>
  The global grid as \<^verbatim>\<open>print_board\<close> assembles it in process 0: row \<open>i\<close> comes from
  the process \<^verbatim>\<open>process_owning_row(i, size)\<close>; that process sends its rows
  \<open>1..local_rows\<close> in order, so global row \<open>i\<close> is its local row
  \<open>i - local_start_row + 1\<close>, columns \<open>1..size\<close>.
\<close>

definition global_row :: "int \<Rightarrow> int \<Rightarrow> twoD_array list \<Rightarrow> nat \<Rightarrow> int list" where
  "global_row nprocs sz bs i =
     (let p = process_owning_row nprocs (int i) sz in
      take (nat sz)
        (drop 1 (elems (bs ! nat p) ! nat (int i - local_start_row nprocs p sz + 1))))"

definition global_grid :: "int \<Rightarrow> int \<Rightarrow> twoD_array list \<Rightarrow> matrix" where
  "global_grid nprocs sz bs = map (global_row nprocs sz bs) [1..<nat (sz + 1)]"

section \<open>Notions used in the statements\<close>

text \<open>
  A board is well formed when \<open>elems\<close> has \<open>rows\<close> rows of \<open>cols\<close> cells each, as
  \<^verbatim>\<open>build_array\<close> makes it.
\<close>

definition well_formed :: "twoD_array \<Rightarrow> bool" where
  "well_formed a =
     (length (elems a) = nat (rows a) \<and>
      list_all (\<lambda>row. length row = nat (cols a)) (elems a))"

text \<open>A matrix of game.c is square of size \<open>s\<close>.\<close>

definition square :: "int \<Rightarrow> matrix \<Rightarrow> bool" where
  "square s m = (length m = nat s \<and> list_all (\<lambda>row. length row = nat s) m)"

text \<open>Every cell holds a cell state.\<close>

definition valid_cells :: "matrix \<Rightarrow> bool" where
  "valid_cells e = list_all (list_all (\<lambda>c. c = ALIVE \<or> c = DEAD)) e"

text \<open>The number of live cells among the eight cells around \<open>(i, j)\<close>.\<close>

definition live_neighbours :: "matrix \<Rightarrow> nat \<Rightarrow> nat \<Rightarrow> int" where
  "live_neighbours e i j =
     int (length (filter (\<lambda>(a, b). e ! a ! b = ALIVE)
       [(i - 1, j - 1), (i - 1, j), (i - 1, j + 1),
        (i, j - 1), (i, j + 1),
        (i + 1, j - 1), (i + 1, j), (i + 1, j + 1)]))"

text \<open>The grid of size \<open>s\<close> whose cells are all dead.\<close>

definition all_dead :: "int \<Rightarrow> matrix" where
  "all_dead s = replicate (nat s) (replicate (nat s) DEAD)"

text \<open>
  The partition has room for every process: the rows handed to the first
  \<open>nprocs - 1\<close> processes do not exceed the grid.
\<close>

definition valid_partition :: "int \<Rightarrow> int \<Rightarrow> bool" where
  "valid_partition nprocs sz =
     (1 \<le> nprocs \<and> 0 < sz \<and> (nprocs - 1) * rows_per_process nprocs sz \<le> sz)"

text \<open>
  The board of process \<open>r\<close> has \<open>local_rows + 2\<close> rows and \<open>sz + 2\<close> columns.
\<close>

definition board_shape :: "int \<Rightarrow> int \<Rightarrow> int \<Rightarrow> twoD_array \<Rightarrow> bool" where
  "board_shape nprocs sz r b =
     (well_formed b \<and> rows b = local_rows nprocs r sz + 2 \<and> cols b = sz + 2)"

text \<open>
  The part of the border ring of the board of process \<open>r\<close> that no message ever
  overwrites is zero: the first and the last column, the top row of process 0
  and the bottom row of the last process.
\<close>

definition ring_clear :: "int \<Rightarrow> int \<Rightarrow> twoD_array \<Rightarrow> bool" where
  "ring_clear nprocs r b =
     (list_all (\<lambda>row. row ! 0 = 0 \<and> row ! nat (cols b - 1) = 0) (elems b) \<and>
      (r = 0 \<longrightarrow> list_all (\<lambda>c. c = 0) (elems b ! 0)) \<and>
      (r = nprocs - 1 \<longrightarrow> list_all (\<lambda>c. c = 0) (elems b ! nat (rows b - 1))))"

text \<open>
  The invariant of the run: every process holds two boards of its shape whose
  fixed part of the ring is zero.
\<close>

definition run_inv :: "int \<Rightarrow> int \<Rightarrow> twoD_array list \<times> twoD_array list \<Rightarrow> bool" where
  "run_inv nprocs sz st =
     (case st of (bs, nbs) \<Rightarrow>
        length bs = nat nprocs \<and> length nbs = nat nprocs \<and>
        (\<forall>r < nat nprocs.
           board_shape nprocs sz (int r) (bs ! r) \<and> ring_clear nprocs (int r) (bs ! r) \<and>
           board_shape nprocs sz (int r) (nbs ! r) \<and> ring_clear nprocs (int r) (nbs ! r)))"

text \<open>
  The boards \<open>bs\<close> of the processes hold the rows of the single board \<open>g\<close>:
  local row \<open>k\<close> of process \<open>r\<close> is row \<open>r * rows_per_process + k\<close> of \<open>g\<close>.
\<close>

definition slices :: "int \<Rightarrow> int \<Rightarrow> twoD_array list \<Rightarrow> twoD_array \<Rightarrow> bool" where
  "slices nprocs sz bs g =
     (\<forall>r<nat nprocs. \<forall>k c.
        1 \<le> k \<and> int k \<le> local_rows nprocs (int r) sz \<and> c < nat (sz + 2) \<longrightarrow>
        elems (bs ! r) ! k ! c
          = elems g ! (r * nat (rows_per_process nprocs sz) + k) ! c)"

section \<open>Writing loops\<close>

lemma wrap_int_id: "- (2 ^ 31) \<le> v \<Longrightarrow> v < 2 ^ 31 \<Longrightarrow> wrap_int v = v"
  by (simp add: wrap_int_def)

lemma length_set_cell [simp]: "length (set_cell m i j v) = length m"
  by (simp add: set_cell_def)

lemma length_set_cell_row [simp]: "length (set_cell m i j v ! a) = length (m ! a)"
  by (cases "i < length m"; cases "a = i") (simp_all add: set_cell_def list_update_beyond)

lemma nth_set_cell:
  "set_cell m i j v ! a ! b =
     (if a = i \<and> b = j \<and> i < length m \<and> j < length (m ! i) then v else m ! a ! b)"
  by (cases "i < length m"; cases "a = i"; cases "b = j"; cases "j < length (m ! i)")
     (simp_all add: set_cell_def list_update_beyond)

lemma length_fold_cols [simp]:
  "length (fold (\<lambda>j e. set_cell e i j (f j)) js e) = length e"
  by (induction js arbitrary: e) simp_all

lemma length_fold_cols_row [simp]:
  "length (fold (\<lambda>j e. set_cell e i j (f j)) js e ! a) = length (e ! a)"
  by (induction js arbitrary: e) simp_all

lemma nth_fold_cols:
  "fold (\<lambda>j e. set_cell e i j (f j)) js e ! a ! b =
     (if a = i \<and> b \<in> set js \<and> i < length e \<and> b < length (e ! i) then f b else e ! a ! b)"
  by (induction js arbitrary: e) (auto simp: nth_set_cell)

lemma length_fold_rows [simp]:
  "length (fold (\<lambda>i. fold (\<lambda>j e. set_cell e i j (f i j)) js) is e) = length e"
  by (induction "is" arbitrary: e) simp_all

lemma length_fold_rows_row [simp]:
  "length (fold (\<lambda>i. fold (\<lambda>j e. set_cell e i j (f i j)) js) is e ! a) = length (e ! a)"
  by (induction "is" arbitrary: e) simp_all

lemma nth_fold_rows:
  "fold (\<lambda>i. fold (\<lambda>j e. set_cell e i j (f i j)) js) is e ! a ! b =
     (if a \<in> set is \<and> b \<in> set js \<and> a < length e \<and> b < length (e ! a)
      then f a b else e ! a ! b)"
  by (induction "is" arbitrary: e) (auto simp: nth_fold_cols)

section \<open>The partition of game\_mpi.c\<close>

text \<open>
  Claim C3 (partition coverage for every \<open>1 \<le> P \<le> S\<close>). The code does not have
  the property: with 5 rows and 4 processes \<^verbatim>\<open>rows_per_process\<close> is 2, the first
  three processes take the ranges \<open>[1,3)\<close>, \<open>[3,5)\<close>, \<open>[5,7)\<close>, and the last one
  gets the row count \<open>-1\<close> and the range \<open>[7,6)\<close>. Row 6, which is no row of the
  grid, lies in the range of process 2, so the union is not \<open>[1,6)\<close>.
\<close>

theorem partition_5_rows_4_processes:
  "local_rows 4 3 5 = - 1 \<and>
   local_start_row 4 3 5 = 7 \<and> local_end_row 4 3 5 = 6 \<and>
   local_start_row 4 2 5 = 5 \<and> local_end_row 4 2 5 = 7 \<and>
   (\<Union>r \<in> {0..<4}. {local_start_row 4 r 5 ..< local_end_row 4 r 5}) \<noteq> {1..<5 + 1}"
proof -
  have rpp: "rows_per_process 4 5 = 2"
    by (simp add: rows_per_process_def signed_divide_int_def)
  have a: "local_rows 4 3 5 = - 1" "local_start_row 4 3 5 = 7" "local_end_row 4 3 5 = 6"
    "local_start_row 4 2 5 = 5" "local_end_row 4 2 5 = 7"
    by (simp_all add: local_rows_def local_start_row_def local_end_row_def rpp)
  have "(6::int) \<in> (\<Union>r \<in> {0..<4}. {local_start_row 4 r 5 ..< local_end_row 4 r 5})"
    using a by (intro UN_I [of 2]) simp_all
  moreover have "(6::int) \<notin> {1..<5 + 1}"
    by simp
  ultimately show ?thesis
    using a by metis
qed

section \<open>The row ranges of the threads of game\_omp.c\<close>

text \<open>
  Claim C4 (the threads' row ranges are disjoint and cover all rows, the leftover
  rows going to thread 0 in every generation). The code does not have the
  property: with 3 rows and 2 threads, in the first generation thread 0 takes
  rows \<open>{0, 1}\<close> and thread 1 takes row \<open>{1}\<close>, so row 1 is computed twice and row 2
  by no thread; from the second generation on the flag \<^verbatim>\<open>alert_extra_work\<close> is
  set and thread 0 takes row \<open>{0}\<close> only. Row 2 of the destination keeps what
  \<^verbatim>\<open>malloc\<close> left there (7 in the run below).
\<close>

theorem omp_3_rows_2_threads:
  "thread_rows 0 0 3 2 = {0, 1} \<and> thread_rows 0 1 3 2 = {1} \<and>
   thread_rows 1 0 3 2 = {0} \<and> thread_rows 1 1 3 2 = {1} \<and>
   parallel_region [[0,0,0],[0,0,0],[0,0,0]] 3 2 ([[7,7,7],[7,7,7],[7,7,7]], 0)
     = ([[0,0,0],[0,0,0],[7,7,7]], 1)"
  by code_simp

section \<open>The argument check of game.c\<close>

text \<open>
  Claim C7 (a missing argument, or a size or generation count that is zero or
  negative, ends the program with status 1 before any allocation). The check in
  \<^verbatim>\<open>main\<close> is \<^verbatim>\<open>size == 0 || generations == 0\<close>, so a negative size passes it:
  \<^verbatim>\<open>./game -5 3\<close> calls \<^verbatim>\<open>new_matrix(-5)\<close> four times and returns
  \<^verbatim>\<open>EXIT_SUCCESS\<close>, although the usage message asks for a size \<^verbatim>\<open>(> 0)\<close>.
\<close>

theorem game_main_negative_size:
  "exit_status (game_main rand u0 u [''./game'', ''-5'', ''3'']) = EXIT_SUCCESS \<and>
   allocations (game_main rand u0 u [''./game'', ''-5'', ''3'']) = [- 5, - 5, - 5, - 5]"
  by (simp add: game_main_def atoi_def strtol_def wrap_int_def is_space_def is_digit_def
      Let_def EXIT_SUCCESS_def numeral_3_eq_3)

text \<open>The parts of the claim that the check does implement.\<close>

lemma game_main_missing_argument:
  "length argv < 3 \<Longrightarrow>
   game_main rand u0 u argv
     = \<lparr>exit_status = EXIT_FAILURE, allocations = [], alive_printed = None\<rparr>"
  by (simp add: game_main_def)

lemma game_main_zero_argument:
  "atoi (argv ! 1) = 0 \<or> atoi (argv ! 2) = 0 \<Longrightarrow>
   game_main rand u0 u argv
     = \<lparr>exit_status = EXIT_FAILURE, allocations = [], alive_printed = None\<rparr>"
  by (auto simp: game_main_def Let_def)

lemma game_main_positive_arguments:
  "3 \<le> length argv \<Longrightarrow> 0 < atoi (argv ! 1) \<Longrightarrow> 0 < atoi (argv ! 2) \<Longrightarrow>
   exit_status (game_main rand u0 u argv) = EXIT_SUCCESS"
  by (simp add: game_main_def Let_def)

text \<open>
  A size beyond the range of \<^verbatim>\<open>int\<close> is the value that the conversion leaves:
  4294967296 (2 to the power 32) becomes 0 and is refused, 2147483648 becomes
  \<open>-2147483648\<close>.
\<close>

lemma atoi_out_of_range:
  "atoi ''4294967296'' = 0"
  "atoi ''2147483648'' = - 2147483648"
  "atoi ''99999999999999999999'' = - 1"
  "exit_status (game_main rand u0 u [''./game'', ''4294967296'', ''3'']) = EXIT_FAILURE"
  by (simp_all add: game_main_def atoi_def strtol_def wrap_int_def is_space_def is_digit_def
      Let_def numeral_3_eq_3)

section \<open>Boards and their border\<close>

lemma length_border_cols [simp]:
  "length (fold (\<lambda>c e. set_cell (set_cell e 0 c 0) R c 0) cs e) = length e"
  by (induction cs arbitrary: e) simp_all

lemma length_border_cols_row [simp]:
  "length (fold (\<lambda>c e. set_cell (set_cell e 0 c 0) R c 0) cs e ! a) = length (e ! a)"
  by (induction cs arbitrary: e) simp_all

lemma nth_border_cols:
  "fold (\<lambda>c e. set_cell (set_cell e 0 c 0) R c 0) cs e ! a ! b =
     (if (a = 0 \<or> a = R) \<and> b \<in> set cs \<and> a < length e \<and> b < length (e ! a)
      then 0 else e ! a ! b)"
  by (induction cs arbitrary: e) (auto simp: nth_set_cell)

lemma length_border_rows [simp]:
  "length (fold (\<lambda>r e. set_cell (set_cell e r 0 0) r C 0) rs e) = length e"
  by (induction rs arbitrary: e) simp_all

lemma length_border_rows_row [simp]:
  "length (fold (\<lambda>r e. set_cell (set_cell e r 0 0) r C 0) rs e ! a) = length (e ! a)"
  by (induction rs arbitrary: e) simp_all

lemma nth_border_rows:
  "fold (\<lambda>r e. set_cell (set_cell e r 0 0) r C 0) rs e ! a ! b =
     (if a \<in> set rs \<and> (b = 0 \<or> b = C) \<and> a < length e \<and> b < length (e ! a)
      then 0 else e ! a ! b)"
  by (induction rs arbitrary: e) (auto simp: nth_set_cell)

lemma rows_clear_border [simp]: "rows (clear_border a) = rows a"
  and cols_clear_border [simp]: "cols (clear_border a) = cols a"
  and length_clear_border [simp]: "length (elems (clear_border a)) = length (elems a)"
  and length_clear_border_row [simp]:
    "length (elems (clear_border a) ! r) = length (elems a ! r)"
  by (simp_all add: clear_border_def)

lemma well_formedD:
  "well_formed a \<Longrightarrow> length (elems a) = nat (rows a)"
  "well_formed a \<Longrightarrow> r < nat (rows a) \<Longrightarrow> length (elems a ! r) = nat (cols a)"
  by (simp_all add: well_formed_def list_all_length)

lemma well_formedI:
  "length (elems a) = nat (rows a) \<Longrightarrow>
   (\<And>r. r < nat (rows a) \<Longrightarrow> length (elems a ! r) = nat (cols a)) \<Longrightarrow> well_formed a"
  by (simp add: well_formed_def list_all_length)

lemma well_formed_clear_border: "well_formed a \<Longrightarrow> well_formed (clear_border a)"
  by (rule well_formedI) (simp_all add: well_formedD)

lemma clear_border_nth:
  assumes "well_formed a" "r < nat (rows a)" "c < nat (cols a)"
  shows "elems (clear_border a) ! r ! c =
     (if r = 0 \<or> r = nat (rows a - 1) \<or> c = 0 \<or> c = nat (cols a - 1) then 0
      else elems a ! r ! c)"
proof -
  have "0 < rows a" "0 < cols a"
    using assms(2,3) by linarith+
  then show ?thesis
    using assms
    by (simp add: clear_border_def nth_border_rows nth_border_cols well_formedD)
qed

section \<open>The local step applies the rule\<close>

lemma valid_cellsD:
  "valid_cells e \<Longrightarrow> a < length e \<Longrightarrow> b < length (e ! a) \<Longrightarrow> e ! a ! b = 0 \<or> e ! a ! b = 1"
  by (auto simp: valid_cells_def list_all_length ALIVE_def DEAD_def)

lemma count_cons:
  "int (length (filter P (x # xs))) = of_bool (P x) + int (length (filter P xs))"
  by simp

lemma live_neighbours_sum:
  "live_neighbours e i j =
     of_bool (e ! (i - 1) ! (j - 1) = ALIVE) + (of_bool (e ! (i - 1) ! j = ALIVE) +
     (of_bool (e ! (i - 1) ! (j + 1) = ALIVE) + (of_bool (e ! i ! (j - 1) = ALIVE) +
     (of_bool (e ! i ! (j + 1) = ALIVE) + (of_bool (e ! (i + 1) ! (j - 1) = ALIVE) +
     (of_bool (e ! (i + 1) ! j = ALIVE) + of_bool (e ! (i + 1) ! (j + 1) = ALIVE)))))))"
  unfolding live_neighbours_def
  by (simp only: count_cons prod.case filter.simps(1) list.size(3) of_nat_0 add_0_right)

lemma cell_of_bool: "x = 0 \<or> x = 1 \<Longrightarrow> x = of_bool (x = ALIVE)"
  by (auto simp: ALIVE_def)

lemma nbrs_eq_live_neighbours:
  assumes "e ! (i - 1) ! (j - 1) = 0 \<or> e ! (i - 1) ! (j - 1) = 1"
    "e ! (i - 1) ! j = 0 \<or> e ! (i - 1) ! j = 1"
    "e ! (i - 1) ! (j + 1) = 0 \<or> e ! (i - 1) ! (j + 1) = 1"
    "e ! i ! (j - 1) = 0 \<or> e ! i ! (j - 1) = 1"
    "e ! i ! (j + 1) = 0 \<or> e ! i ! (j + 1) = 1"
    "e ! (i + 1) ! (j - 1) = 0 \<or> e ! (i + 1) ! (j - 1) = 1"
    "e ! (i + 1) ! j = 0 \<or> e ! (i + 1) ! j = 1"
    "e ! (i + 1) ! (j + 1) = 0 \<or> e ! (i + 1) ! (j + 1) = 1"
  shows "nbrs e i j = live_neighbours e i j"
proof -
  have "length (filter P [a, b, c, d, e, f, g, h]) \<le> 8" for P :: "'a \<Rightarrow> bool" and a b c d e f g h
    using length_filter_le [of P "[a, b, c, d, e, f, g, h]"] by simp
  then have "live_neighbours e i j \<le> 8"
    unfolding live_neighbours_def by (simp only: of_nat_le_iff [symmetric, where ?'a = int]) simp
  moreover have "0 \<le> live_neighbours e i j"
    by (simp add: live_neighbours_def)
  ultimately have "wrap_int (live_neighbours e i j) = live_neighbours e i j"
    by (intro wrap_int_id) simp_all
  moreover have "e ! (i - 1) ! (j - 1) + e ! (i - 1) ! j + e ! (i - 1) ! (j + 1) +
     e ! i ! (j - 1) + e ! i ! (j + 1) +
     e ! (i + 1) ! (j - 1) + e ! (i + 1) ! j + e ! (i + 1) ! (j + 1) = live_neighbours e i j"
    unfolding live_neighbours_sum
    using assms [THEN cell_of_bool] by linarith
  ultimately show ?thesis
    unfolding nbrs_def by simp
qed

lemma update_cells_nth:
  "elems (update_cells board new_board) ! a ! b =
     (if 1 \<le> a \<and> int a \<le> rows board - 2 \<and> 1 \<le> b \<and> int b \<le> cols board - 2
         \<and> a < length (elems new_board) \<and> b < length (elems new_board ! a)
      then apply_rules (elems board ! a ! b) (nbrs (elems board) a b)
      else elems new_board ! a ! b)"
  unfolding update_cells_def by (simp add: nth_fold_rows) linarith


text \<open>
  Claim C1. For a well-formed source board whose cells (interior, halo and
  border) are all 0 or 1, a destination of the same dimensions and an interior
  cell \<open>(i, j)\<close>, the local step of \<^verbatim>\<open>update_board\<close> writes to the destination
  at \<open>(i, j)\<close> the rule applied to the sum of the eight surrounding source cells.
  That sum is the number \<open>n\<close> of live neighbours, and the value written is
  \<^verbatim>\<open>ALIVE\<close> exactly when \<open>n = 3\<close>, or the cell is alive and \<open>n = 2\<close>: a cell with
  3 live neighbours is alive whatever its state, a live cell with 2 or 3 is
  alive, a live cell with 1 or with 4 or more is dead, a dead cell with 2 stays
  dead.
\<close>

theorem update_cells_rule:
  assumes wf: "well_formed board" "well_formed new_board"
    and dims: "rows new_board = rows board" "cols new_board = cols board"
    and valid: "valid_cells (elems board)"
    and ij: "1 \<le> i" "int i \<le> rows board - 2" "1 \<le> j" "int j \<le> cols board - 2"
  shows
    "(let n = live_neighbours (elems board) i j;
          cell = elems board ! i ! j;
          cell' = elems (update_cells board new_board) ! i ! j
      in nbrs (elems board) i j = n \<and>
         cell' = apply_rules cell (nbrs (elems board) i j) \<and>
         cell' = (if n = 3 \<or> (cell = ALIVE \<and> n = 2) then ALIVE else DEAD) \<and>
         (n = 3 \<longrightarrow> cell' = ALIVE) \<and>
         (cell = ALIVE \<and> (n = 2 \<or> n = 3) \<longrightarrow> cell' = ALIVE) \<and>
         (cell = ALIVE \<and> (n = 1 \<or> 4 \<le> n) \<longrightarrow> cell' = DEAD) \<and>
         (cell = DEAD \<and> n = 2 \<longrightarrow> cell' = DEAD))"
proof -
  let ?e = "elems board"
  have len: "length ?e = nat (rows board)"
    and row: "\<And>r. r < nat (rows board) \<Longrightarrow> length (?e ! r) = nat (cols board)"
    using wf(1) by (simp_all add: well_formedD)
  have bit: "?e ! a ! b = 0 \<or> ?e ! a ! b = 1"
    if "a < nat (rows board)" "b < nat (cols board)" for a b
    using that valid_cellsD [OF valid, of a b] len row by simp
  have n: "nbrs ?e i j = live_neighbours ?e i j"
    using ij by (intro nbrs_eq_live_neighbours bit) linarith+
  have "i < length (elems new_board)" "j < length (elems new_board ! i)"
    using wf(2) dims ij by (simp_all add: well_formedD)
  then have c: "elems (update_cells board new_board) ! i ! j = apply_rules (?e ! i ! j) (nbrs ?e i j)"
    using ij by (simp add: update_cells_nth)
  have "?e ! i ! j = 0 \<or> ?e ! i ! j = 1"
    using ij by (intro bit) linarith+
  then show ?thesis
    unfolding Let_def c n [symmetric]
    by (auto simp: apply_rules_def ALIVE_def DEAD_def)
qed

theorem update_cells_rule_witness:
  "(let board = \<lparr>rows = 4, cols = 5,
                 elems = [[0,1,0,0,0],[0,1,1,0,0],[0,0,1,0,0],[0,0,0,0,0]]\<rparr>;
        new_board = \<lparr>rows = 4, cols = 5,
                 elems = [[0,0,0,0,0],[0,7,7,7,0],[0,7,7,7,0],[0,0,0,0,0]]\<rparr>
    in well_formed board \<and> well_formed new_board \<and>
       rows new_board = rows board \<and> cols new_board = cols board \<and>
       valid_cells (elems board) \<and>
       live_neighbours (elems board) 1 1 = 3 \<and>
       elems (update_cells board new_board) ! 1 ! 1 = ALIVE \<and>
       elems board ! 1 ! 3 = DEAD \<and>
       live_neighbours (elems board) 1 3 = 2 \<and>
       elems (update_cells board new_board) ! 1 ! 3 = DEAD)"
proof -
  let ?b = "\<lparr>rows = 4, cols = 5,
                 elems = [[0,1,0,0,0],[0,1,1,0,0],[0,0,1,0,0],[0,0,0,0,0::int]]\<rparr>"
  let ?nb = "\<lparr>rows = 4, cols = 5,
                 elems = [[0,0,0,0,0],[0,7,7,7,0],[0,7,7,7,0],[0,0,0,0,0::int]]\<rparr>"
  have h: "well_formed ?b" "well_formed ?nb" "rows ?nb = rows ?b" "cols ?nb = cols ?b"
    "valid_cells (elems ?b)"
    by (simp_all add: well_formed_def valid_cells_def ALIVE_def DEAD_def)
  have n: "live_neighbours (elems ?b) 1 1 = 3" "live_neighbours (elems ?b) 1 3 = 2"
    "elems ?b ! 1 ! 3 = DEAD"
    by (simp_all add: live_neighbours_def ALIVE_def DEAD_def)
  have i1: "1 \<le> (1::nat)" "int 1 \<le> rows ?b - 2" "1 \<le> (1::nat)" "int 1 \<le> cols ?b - 2"
    by simp_all
  have i3: "1 \<le> (1::nat)" "int 1 \<le> rows ?b - 2" "1 \<le> (3::nat)" "int 3 \<le> cols ?b - 2"
    by simp_all
  note t1 = update_cells_rule [OF h i1, unfolded Let_def]
  note t3 = update_cells_rule [OF h i3, unfolded Let_def]
  have r1: "elems (update_cells ?b ?nb) ! 1 ! 1 = ALIVE"
    by (rule t1 [THEN conjunct2, THEN conjunct2, THEN conjunct2, THEN conjunct1, THEN mp,
          OF n(1)])
  have r3: "elems (update_cells ?b ?nb) ! 1 ! 3 = DEAD"
    by (rule t3 [THEN conjunct2, THEN conjunct2, THEN conjunct2, THEN conjunct2,
          THEN conjunct2, THEN conjunct2, THEN mp, OF conjI [OF n(3) n(2)]])
  show ?thesis
    unfolding Let_def using h n r1 r3 by blast
qed

section \<open>game.c: the torus and the empty grid\<close>

lemma read_neighbor_torus:
  assumes "0 < s" "- 1 \<le> i" "i \<le> s" "- 1 \<le> j" "j \<le> s"
  shows "read_neighbor m s i j = m ! nat (i mod s) ! nat (j mod s)"
proof -
  have w: "(if k < 0 then s - 1 else if k = s then 0 else k) = k mod s"
    if "- 1 \<le> k" "k \<le> s" for k
  proof (cases "k = - 1")
    case True
    then show ?thesis
      using assms(1) by (simp add: zmod_minus1)
  next
    case False
    then show ?thesis
      using that assms(1) by (cases "k = s") simp_all
  qed
  show ?thesis
    unfolding read_neighbor_def Let_def using w [OF assms(2,3)] w [OF assms(4,5)] by simp
qed

lemma read_neighbor_all_dead:
  assumes "0 < s" "- 1 \<le> i" "i \<le> s" "- 1 \<le> j" "j \<le> s"
  shows "read_neighbor (all_dead s) s i j = DEAD"
proof -
  have "nat (i mod s) < nat s" "nat (j mod s) < nat s"
    using assms(1) by simp_all
  then show ?thesis
    by (simp add: read_neighbor_torus [OF assms] all_dead_def)
qed

lemma alive_neighbors_all_dead:
  assumes "0 \<le> i" "i < s" "0 \<le> j" "j < s"
  shows "alive_neighbors (all_dead s) s i j = 0"
  unfolding alive_neighbors_def using assms
  by (simp add: read_neighbor_all_dead DEAD_def wrap_int_def)

lemma process_rows_nth:
  "process_rows from to s is ! a ! b =
     (if a \<in> set is \<and> int b < s \<and> a < length to \<and> b < length (to ! a)
      then apply_rules (from ! a ! b) (alive_neighbors from s (int a) (int b))
      else to ! a ! b)"
  unfolding process_rows_def by (simp add: nth_fold_rows) linarith

lemma length_process_rows [simp]: "length (process_rows from to s is) = length to"
  unfolding process_rows_def by simp

lemma length_process_rows_row [simp]:
  "length (process_rows from to s is ! a) = length (to ! a)"
  unfolding process_rows_def by simp

text \<open>
  The loops of game.c and of game\_omp.c apply the same rule to the sum of the
  eight toroidal neighbours: in a square destination every cell receives it.
\<close>

lemma process_generation_rule:
  assumes "square s to" "i < nat s" "j < nat s"
  shows "process_generation from to s ! i ! j
     = apply_rules (from ! i ! j) (alive_neighbors from s (int i) (int j))"
proof -
  have "i < length to" "j < length (to ! i)"
    using assms by (simp_all add: square_def list_all_length)
  moreover have "int j < s"
    using assms(3) by linarith
  ultimately show ?thesis
    using assms(2) by (simp add: process_generation_def process_rows_nth)
qed

lemma process_generation_all_dead:
  "process_generation (all_dead s) (new_matrix u s) s = all_dead s"
proof (rule nth_equalityI)
  show "length (process_generation (all_dead s) (new_matrix u s) s) = length (all_dead s)"
    by (simp add: process_generation_def new_matrix_def all_dead_def)
next
  fix a
  assume "a < length (process_generation (all_dead s) (new_matrix u s) s)"
  then have a: "a < nat s"
    by (simp add: process_generation_def new_matrix_def)
  show "process_generation (all_dead s) (new_matrix u s) s ! a = all_dead s ! a"
  proof (rule nth_equalityI)
    show "length (process_generation (all_dead s) (new_matrix u s) s ! a) = length (all_dead s ! a)"
      using a by (simp add: process_generation_def new_matrix_def all_dead_def)
  next
    fix b
    assume "b < length (process_generation (all_dead s) (new_matrix u s) s ! a)"
    then have b: "b < nat s"
      using a by (simp add: process_generation_def new_matrix_def)
    have "alive_neighbors (all_dead s) s (int a) (int b) = 0"
      using a b by (intro alive_neighbors_all_dead) simp_all
    moreover have "int b < s"
      using b by simp
    ultimately show "process_generation (all_dead s) (new_matrix u s) s ! a ! b = all_dead s ! a ! b"
      using a b
      by (simp add: process_generation_def process_rows_nth new_matrix_def all_dead_def
          apply_rules_def DEAD_def ALIVE_def)
  qed
qed

lemma run_generations_all_dead: "run_generations u s g (all_dead s) = all_dead s"
  by (induction g) (simp_all add: process_generation_all_dead)

lemma count_none:
  "(\<And>i j. i \<in> set is \<Longrightarrow> j \<in> set js \<Longrightarrow> m ! i ! j \<noteq> ALIVE) \<Longrightarrow>
   fold (\<lambda>i. fold (\<lambda>j alives. if m ! i ! j = ALIVE then alives + 1 else alives) js) is (acc::int)
     = acc"
proof (induction "is" arbitrary: acc)
  case Nil
  then show ?case by simp
next
  case (Cons i "is")
  have "fold (\<lambda>j alives. if m ! i ! j = ALIVE then alives + 1 else alives) js' acc = acc"
    if "set js' \<subseteq> set js" for js' and acc :: int
    using that Cons.prems [of i] by (induction js' arbitrary: acc) auto
  then show ?case
    using Cons by simp
qed

lemma cells_alive_all_dead: "cells_alive (all_dead s) s = 0"
  unfolding cells_alive_def
  by (rule count_none) (simp add: all_dead_def DEAD_def ALIVE_def)

text \<open>
  Claim C6. Starting from the all-dead grid of any size, the matrix of game.c is
  all-dead after every number of generations, whatever the fresh allocations
  contained, and \<^verbatim>\<open>cells_alive\<close> returns 0 on it.
\<close>

theorem empty_grid_stable:
  "run_generations u s g (all_dead s) = all_dead s \<and>
   cells_alive (run_generations u s g (all_dead s)) s = 0"
  by (simp add: run_generations_all_dead cells_alive_all_dead)

section \<open>Arithmetic of the partition\<close>

lemma sdiv_nonneg: "0 \<le> a \<Longrightarrow> 0 < b \<Longrightarrow> a sdiv b = a div (b::int)"
  by (simp add: signed_divide_int_def sgn_if)

lemma rows_per_process_div:
  "1 \<le> nprocs \<Longrightarrow> 0 \<le> sz \<Longrightarrow> rows_per_process nprocs sz = (sz + (nprocs - 1)) div nprocs"
  by (simp add: rows_per_process_def sdiv_nonneg)

lemma rows_per_process_pos:
  assumes "1 \<le> nprocs" "0 < sz"
  shows "1 \<le> rows_per_process nprocs sz"
proof -
  have "nprocs \<le> sz + (nprocs - 1)"
    using assms by simp
  then have "nprocs div nprocs \<le> (sz + (nprocs - 1)) div nprocs"
    using assms(1) by (intro zdiv_mono1) simp_all
  then show ?thesis
    using assms by (simp add: rows_per_process_div)
qed

lemma rows_per_process_covers:
  assumes "1 \<le> nprocs" "0 \<le> sz"
  shows "sz \<le> nprocs * rows_per_process nprocs sz"
proof -
  let ?a = "sz + (nprocs - 1)"
  have "?a = nprocs * (?a div nprocs) + ?a mod nprocs"
    by simp
  moreover have "?a mod nprocs \<le> nprocs - 1"
    using assms(1) pos_mod_bound [of nprocs ?a] by linarith
  ultimately have "sz \<le> nprocs * (?a div nprocs)"
    by linarith
  then show ?thesis
    using assms by (simp add: rows_per_process_div)
qed

lemma rows_per_process_one [simp]: "rows_per_process 1 sz = sz"
  by (simp add: rows_per_process_def)

lemma valid_partition_one: "0 < sz \<Longrightarrow> valid_partition 1 sz"
  by (simp add: valid_partition_def)

lemma local_rows_nonneg:
  "valid_partition nprocs sz \<Longrightarrow> 0 \<le> r \<Longrightarrow> r < nprocs \<Longrightarrow> 0 \<le> local_rows nprocs r sz"
  using rows_per_process_pos [of nprocs sz]
  by (auto simp: valid_partition_def local_rows_def)

lemma local_rows_inner:
  "r \<noteq> nprocs - 1 \<Longrightarrow> local_rows nprocs r sz = rows_per_process nprocs sz"
  by (simp add: local_rows_def)

lemma local_end_row_eq:
  "local_end_row nprocs r sz = local_start_row nprocs r sz + local_rows nprocs r sz"
  by (cases "r = nprocs - 1") (simp_all add: local_end_row_def local_start_row_def local_rows_def)

lemma int_div_bounds:
  fixes x q :: int
  assumes "0 < q"
  shows "x div q * q \<le> x" "x < (x div q + 1) * q"
proof -
  have e: "x = q * (x div q) + x mod q"
    by simp
  have b: "0 \<le> x mod q" "x mod q < q"
    using assms by simp_all
  from e b have "q * (x div q) \<le> x"
    by linarith
  then show "x div q * q \<le> x"
    by (simp add: mult.commute)
  from e b have "x < q * (x div q) + q"
    by linarith
  then show "x < (x div q + 1) * q"
    by (simp add: algebra_simps)
qed

text \<open>The positive part of the partition claim.\<close>

lemma partition_covers:
  assumes "valid_partition nprocs sz"
  shows "(\<Union>r \<in> {0..<nprocs}. {local_start_row nprocs r sz ..< local_end_row nprocs r sz})
           = {1..<sz + 1}"
proof -
  let ?q = "rows_per_process nprocs sz"
  have P: "1 \<le> nprocs" and S: "0 < sz" and fit: "(nprocs - 1) * ?q \<le> sz"
    using assms by (simp_all add: valid_partition_def)
  have q: "1 \<le> ?q"
    using P S by (rule rows_per_process_pos)
  have cov: "sz \<le> nprocs * ?q"
    using P S by (intro rows_per_process_covers) simp_all
  show ?thesis
  proof (intro set_eqI iffI)
    fix i
    assume "i \<in> (\<Union>r \<in> {0..<nprocs}. {local_start_row nprocs r sz ..< local_end_row nprocs r sz})"
    then obtain r where r: "0 \<le> r" "r < nprocs"
      and i: "local_start_row nprocs r sz \<le> i" "i < local_end_row nprocs r sz"
      by auto
    have "1 \<le> i"
    proof -
      have "0 \<le> r * ?q" using r q by simp
      then show ?thesis using i(1) by (simp add: local_start_row_def)
    qed
    moreover have "i < sz + 1"
    proof (cases "r = nprocs - 1")
      case True
      then show ?thesis using i(2) by (simp add: local_end_row_def)
    next
      case False
      then have "r + 1 \<le> nprocs - 1" using r by simp
      then have "(r + 1) * ?q \<le> (nprocs - 1) * ?q"
        using q by (intro mult_right_mono) simp_all
      then show ?thesis
        using i(2) False fit by (simp add: local_end_row_def local_start_row_def algebra_simps)
    qed
    ultimately show "i \<in> {1..<sz + 1}" by simp
  next
    fix i
    assume "i \<in> {1..<sz + 1}"
    then have i: "1 \<le> i" "i \<le> sz" by simp_all
    define r where "r = min ((i - 1) div ?q) (nprocs - 1)"
    have r0: "0 \<le> r"
      using i q P by (simp add: r_def pos_imp_zdiv_nonneg_iff)
    have r1: "r < nprocs"
      by (simp add: r_def)
    have lo: "r * ?q \<le> i - 1"
    proof -
      have "r * ?q \<le> ((i - 1) div ?q) * ?q"
        using q by (intro mult_right_mono) (simp_all add: r_def)
      also have "\<dots> \<le> i - 1"
        using q by (intro int_div_bounds) simp
      finally show ?thesis .
    qed
    have hi: "i < local_end_row nprocs r sz"
    proof (cases "r = nprocs - 1")
      case True
      then show ?thesis using i by (simp add: local_end_row_def)
    next
      case False
      then have "r = (i - 1) div ?q"
        by (simp add: r_def min_def split: if_splits)
      moreover have "i - 1 < ((i - 1) div ?q + 1) * ?q"
        using q by (intro int_div_bounds) simp
      ultimately show ?thesis
        using False by (simp add: local_end_row_def local_start_row_def algebra_simps)
    qed
    show "i \<in> (\<Union>r \<in> {0..<nprocs}. {local_start_row nprocs r sz ..< local_end_row nprocs r sz})"
      using r0 r1 lo hi by (intro UN_I [of r]) (simp_all add: local_start_row_def)
  qed
qed

text \<open>The ranges of two processes of a valid partition do not overlap.\<close>

lemma partition_disjoint:
  assumes vp: "valid_partition nprocs sz" and r: "0 \<le> r" "r < r'" "r' < nprocs"
  shows "{local_start_row nprocs r sz ..< local_end_row nprocs r sz}
           \<inter> {local_start_row nprocs r' sz ..< local_end_row nprocs r' sz} = {}"
proof -
  let ?q = "rows_per_process nprocs sz"
  have P: "1 \<le> nprocs" and S: "0 < sz"
    using vp by (simp_all add: valid_partition_def)
  have q: "1 \<le> ?q"
    using P S by (rule rows_per_process_pos)
  have "r \<noteq> nprocs - 1"
    using r by simp
  then have e: "local_end_row nprocs r sz = (r + 1) * ?q + 1"
    by (simp add: local_end_row_def local_start_row_def algebra_simps)
  have "(r + 1) * ?q \<le> r' * ?q"
    using r q by (intro mult_right_mono) simp_all
  then have "local_end_row nprocs r sz \<le> local_start_row nprocs r' sz"
    unfolding e by (simp add: local_start_row_def)
  then show ?thesis
    by auto
qed

section \<open>The halo exchange\<close>

lemma row_buffer_eq:
  "0 \<le> k \<Longrightarrow> nat k < length (elems a) \<Longrightarrow> 0 \<le> n \<Longrightarrow> 1 + nat n \<le> length (elems a ! nat k) \<Longrightarrow>
   row_buffer a k n = Some (take (nat n) (drop 1 (elems a ! nat k)))"
  by (simp add: row_buffer_def)

lemma store_row_eq:
  "0 \<le> k \<Longrightarrow> nat k < length (elems a) \<Longrightarrow> 0 \<le> n \<Longrightarrow> 1 + nat n \<le> length (elems a ! nat k) \<Longrightarrow>
   length msg \<le> nat n \<Longrightarrow>
   store_row a k n msg =
     Some (a\<lparr>elems := (elems a)[nat k :=
             take 1 (elems a ! nat k) @ msg @ drop (1 + length msg) (elems a ! nat k)]\<rparr>)"
  by (simp add: store_row_def)

lemma length_splice:
  "1 + length msg \<le> length row \<Longrightarrow>
   length (take 1 row @ msg @ drop (1 + length msg) row) = length row"
  by simp

lemma nth_splice:
  assumes "1 + length msg \<le> length row" "c < length row"
  shows "(take 1 row @ msg @ drop (1 + length msg) row) ! c =
     (if 1 \<le> c \<and> c < 1 + length msg then msg ! (c - 1) else row ! c)"
proof -
  consider "c = 0" | "1 \<le> c" "c < 1 + length msg" | "1 + length msg \<le> c"
    by linarith
  then show ?thesis
  proof cases
    case 1
    then show ?thesis using assms by (simp add: nth_append)
  next
    case 2
    then have "c - 1 < length msg" by linarith
    with 2 show ?thesis using assms by (simp add: nth_append min_def)
  next
    case 3
    then have "\<not> c - 1 < length msg" "\<not> c < 1" "Suc (length msg + (c - 1 - length msg)) = c"
      by linarith+
    with 3 show ?thesis using assms by (simp add: nth_append min_def)
  qed
qed

lemma board_shapeD:
  assumes "board_shape nprocs sz r b"
  shows "rows b = local_rows nprocs r sz + 2" "cols b = sz + 2"
    "length (elems b) = nat (local_rows nprocs r sz + 2)"
    "\<And>k. k < nat (local_rows nprocs r sz + 2) \<Longrightarrow> length (elems b ! k) = nat (sz + 2)"
    "well_formed b"
  using assms by (simp_all add: board_shape_def well_formed_def list_all_length)

lemma store_row_props:
  assumes "0 \<le> k" "nat k < length (elems a)" "0 \<le> n" "1 + nat n \<le> length (elems a ! nat k)"
    "length msg = nat n"
  obtains a' where "store_row a k n msg = Some a'"
    "rows a' = rows a" "cols a' = cols a" "length (elems a') = length (elems a)"
    "\<And>i. length (elems a' ! i) = length (elems a ! i)"
    "\<And>i c. i < length (elems a) \<Longrightarrow> c < length (elems a ! i) \<Longrightarrow>
        elems a' ! i ! c =
          (if i = nat k \<and> 1 \<le> c \<and> c \<le> nat n then msg ! (c - 1) else elems a ! i ! c)"
proof
  let ?row = "elems a ! nat k"
  let ?new = "take 1 ?row @ msg @ drop (1 + length msg) ?row"
  let ?a' = "a\<lparr>elems := (elems a)[nat k := ?new]\<rparr>"
  show "store_row a k n msg = Some ?a'"
    using assms by (intro store_row_eq) simp_all
  show "rows ?a' = rows a" "cols ?a' = cols a" "length (elems ?a') = length (elems a)"
    by simp_all
  have len: "length ?new = length ?row"
    using assms by (intro length_splice) simp
  show "length (elems ?a' ! i) = length (elems a ! i)" for i
    using len assms(2) by (cases "i = nat k") simp_all
  show "elems ?a' ! i ! c =
          (if i = nat k \<and> 1 \<le> c \<and> c \<le> nat n then msg ! (c - 1) else elems a ! i ! c)"
    if "i < length (elems a)" "c < length (elems a ! i)" for i c
  proof (cases "i = nat k")
    case True
    have "?new ! c = (if 1 \<le> c \<and> c < 1 + length msg then msg ! (c - 1) else ?row ! c)"
      using assms that True by (intro nth_splice) simp_all
    then show ?thesis
      using True assms(2,5) by auto
  next
    case False
    then show ?thesis by simp
  qed
qed

lemma row_buffer_props:
  assumes "0 \<le> k" "nat k < length (elems a)" "0 \<le> n" "1 + nat n \<le> length (elems a ! nat k)"
  obtains msg where "row_buffer a k n = Some msg" "length msg = nat n"
    "\<And>c. 1 \<le> c \<Longrightarrow> c \<le> nat n \<Longrightarrow> msg ! (c - 1) = elems a ! nat k ! c"
proof
  let ?msg = "take (nat n) (drop 1 (elems a ! nat k))"
  show "row_buffer a k n = Some ?msg"
    using assms by (rule row_buffer_eq)
  show "length ?msg = nat n"
    using assms by simp
  show "?msg ! (c - 1) = elems a ! nat k ! c" if "1 \<le> c" "c \<le> nat n" for c
    using that assms by simp
qed

lemma recv_above_props:
  assumes vp: "valid_partition P S"
    and shapes: "\<forall>q<nat P. board_shape P S (int q) (bs ! q)"
    and r: "r < nat P"
  obtains b1 where "(if int r \<noteq> 0
        then row_buffer (bs ! (r - 1)) (local_rows P (int r - 1) S) S
               \<bind> store_row (bs ! r) 0 S
        else Some (bs ! r)) = Some b1"
    "rows b1 = rows (bs ! r)" "cols b1 = cols (bs ! r)"
    "length (elems b1) = length (elems (bs ! r))"
    "\<And>i. length (elems b1 ! i) = length (elems (bs ! r) ! i)"
    "\<And>i c. i < nat (local_rows P (int r) S + 2) \<Longrightarrow> c < nat (S + 2) \<Longrightarrow>
       elems b1 ! i ! c =
        (if i = 0 \<and> r \<noteq> 0 \<and> 1 \<le> c \<and> c \<le> nat S
         then elems (bs ! (r - 1)) ! nat (rows_per_process P S) ! c else elems (bs ! r) ! i ! c)"
proof (cases "r = 0")
  case True
  show ?thesis
    apply (rule that [of "bs ! r"])
    using True apply simp
       apply simp
      apply simp
     apply simp
    apply simp
    using True apply simp
    done
next
  case False
  let ?q = "rows_per_process P S"
  let ?lr = "local_rows P (int r) S"
  let ?b = "bs ! r"
  have P: "1 \<le> P" and S: "0 < S"
    using vp by (simp_all add: valid_partition_def)
  have q: "1 \<le> ?q"
    using P S by (rule rows_per_process_pos)
  have lr: "0 \<le> ?lr"
    using vp r by (intro local_rows_nonneg) simp_all
  note sb = board_shapeD [OF shapes [rule_format, OF r]]
  from False have r1: "r - 1 < nat P" "int (r - 1) \<noteq> P - 1" "int r - 1 = int (r - 1)"
    using r by linarith+
  note sa = board_shapeD [OF shapes [rule_format, OF r1(1)]]
  have lra': "local_rows P (int (r - 1)) S = ?q"
    by (rule local_rows_inner) (fact r1(2))
  have lra: "local_rows P (int r - 1) S = ?q"
    unfolding r1(3) by (fact lra')
  have a1: "0 \<le> ?q" "0 \<le> S"
    using q S by simp_all
  have a2: "nat ?q < length (elems (bs ! (r - 1)))"
    unfolding sa(3) lra' using q by linarith
  have a3: "1 + nat S \<le> length (elems (bs ! (r - 1)) ! nat ?q)"
  proof -
    have "nat ?q < nat (local_rows P (int (r - 1)) S + 2)"
      unfolding lra' using q by linarith
    from sa(4) [OF this] show ?thesis using S by linarith
  qed
  obtain msg where msg: "row_buffer (bs ! (r - 1)) ?q S = Some msg" "length msg = nat S"
    "\<And>c. 1 \<le> c \<Longrightarrow> c \<le> nat S \<Longrightarrow> msg ! (c - 1) = elems (bs ! (r - 1)) ! nat ?q ! c"
    by (rule row_buffer_props [OF a1(1) a2 a1(2) a3]) (rule that)
  have c1: "(0::int) \<le> 0" "nat 0 < length (elems ?b)"
    unfolding sb(3) using lr by simp_all
  have c2: "1 + nat S \<le> length (elems ?b ! nat 0)"
  proof -
    have "0 < nat (?lr + 2)" using lr by simp
    from sb(4) [OF this] show ?thesis
      using S by simp
  qed
  obtain b1 where st: "store_row ?b 0 S msg = Some b1"
    and d: "rows b1 = rows ?b" "cols b1 = cols ?b" "length (elems b1) = length (elems ?b)"
      "\<And>i. length (elems b1 ! i) = length (elems ?b ! i)"
    and n: "\<And>i c. i < length (elems ?b) \<Longrightarrow> c < length (elems ?b ! i) \<Longrightarrow>
        elems b1 ! i ! c =
          (if i = nat 0 \<and> 1 \<le> c \<and> c \<le> nat S then msg ! (c - 1) else elems ?b ! i ! c)"
    by (rule store_row_props [OF c1 a1(2) c2 msg(2)]) (rule that)
  show ?thesis
  proof (rule that [of b1])
    show "(if int r \<noteq> 0
        then row_buffer (bs ! (r - 1)) (local_rows P (int r - 1) S) S \<bind> store_row ?b 0 S
        else Some ?b) = Some b1"
    proof -
      have nz: "int r \<noteq> 0"
        using False by simp
      show ?thesis
        unfolding if_P [OF nz] lra msg(1) Option.bind.bind_lunit by (fact st)
    qed
    show "elems b1 ! i ! c =
        (if i = 0 \<and> r \<noteq> 0 \<and> 1 \<le> c \<and> c \<le> nat S
         then elems (bs ! (r - 1)) ! nat ?q ! c else elems ?b ! i ! c)"
      if "i < nat (?lr + 2)" "c < nat (S + 2)" for i c
    proof -
      have "i < length (elems ?b)" "c < length (elems ?b ! i)"
        using that sb(3) sb(4) [OF that(1)] by simp_all
      from n [OF this] show ?thesis
        using msg(3) [of c] False by simp
    qed
  qed (fact d)+
qed

lemma recv_below_props:
  assumes vp: "valid_partition P S"
    and shapes: "\<forall>q<nat P. board_shape P S (int q) (bs ! q)"
    and r: "r < nat P"
    and b1: "length (elems b1) = length (elems (bs ! r))"
      "\<And>i. length (elems b1 ! i) = length (elems (bs ! r) ! i)"
  obtains b2 where "(if int r \<noteq> P - 1
        then row_buffer (bs ! Suc r) 1 (cols (bs ! Suc r) - 2) \<bind> store_row b1 (local_rows P (int r) S + 1) S
        else Some b1) = Some b2"
    "rows b2 = rows b1" "cols b2 = cols b1"
    "length (elems b2) = length (elems b1)"
    "\<And>i. length (elems b2 ! i) = length (elems b1 ! i)"
    "\<And>i c. i < nat (local_rows P (int r) S + 2) \<Longrightarrow> c < nat (S + 2) \<Longrightarrow>
       elems b2 ! i ! c =
        (if i = nat (local_rows P (int r) S + 1) \<and> int r \<noteq> P - 1 \<and> 1 \<le> c \<and> c \<le> nat S
         then elems (bs ! Suc r) ! 1 ! c else elems b1 ! i ! c)"
proof (cases "int r = P - 1")
  case True
  show ?thesis
    apply (rule that [of b1])
    using True apply simp
       apply simp
      apply simp
     apply simp
    apply simp
    using True apply simp
    done
next
  case False
  let ?lr = "local_rows P (int r) S"
  let ?b = "bs ! r"
  have P: "1 \<le> P" and S: "0 < S"
    using vp by (simp_all add: valid_partition_def)
  have lr: "0 \<le> ?lr"
    using vp r by (intro local_rows_nonneg) simp_all
  note sb = board_shapeD [OF shapes [rule_format, OF r]]
  from False have r1: "Suc r < nat P"
    using r by linarith
  note sa = board_shapeD [OF shapes [rule_format, OF r1]]
  have lra: "0 \<le> local_rows P (int (Suc r)) S"
    using vp r1 by (intro local_rows_nonneg) simp_all
  have a1: "(0::int) \<le> 1" "0 \<le> S"
    using S by simp_all
  have a2: "nat 1 < length (elems (bs ! Suc r))"
    unfolding sa(3) using lra by linarith
  have a3: "1 + nat S \<le> length (elems (bs ! Suc r) ! nat 1)"
  proof -
    have "nat 1 < nat (local_rows P (int (Suc r)) S + 2)"
      using lra by linarith
    from sa(4) [OF this] show ?thesis using S by linarith
  qed
  obtain msg where msg: "row_buffer (bs ! Suc r) 1 S = Some msg" "length msg = nat S"
    "\<And>c. 1 \<le> c \<Longrightarrow> c \<le> nat S \<Longrightarrow> msg ! (c - 1) = elems (bs ! Suc r) ! nat 1 ! c"
    by (rule row_buffer_props [OF a1(1) a2 a1(2) a3]) (rule that)
  have c1: "0 \<le> ?lr + 1" "nat (?lr + 1) < length (elems b1)"
    unfolding b1(1) sb(3) using lr by simp_all
  have c2: "1 + nat S \<le> length (elems b1 ! nat (?lr + 1))"
  proof -
    have "nat (?lr + 1) < nat (?lr + 2)" using lr by simp
    from sb(4) [OF this] show ?thesis
      unfolding b1(2) using S by simp
  qed
  obtain b2 where st: "store_row b1 (?lr + 1) S msg = Some b2"
    and d: "rows b2 = rows b1" "cols b2 = cols b1" "length (elems b2) = length (elems b1)"
      "\<And>i. length (elems b2 ! i) = length (elems b1 ! i)"
    and n: "\<And>i c. i < length (elems b1) \<Longrightarrow> c < length (elems b1 ! i) \<Longrightarrow>
        elems b2 ! i ! c =
          (if i = nat (?lr + 1) \<and> 1 \<le> c \<and> c \<le> nat S then msg ! (c - 1) else elems b1 ! i ! c)"
    by (rule store_row_props [OF c1 a1(2) c2 msg(2)]) (rule that)
  show ?thesis
  proof (rule that [of b2])
    show "(if int r \<noteq> P - 1
        then row_buffer (bs ! Suc r) 1 (cols (bs ! Suc r) - 2) \<bind> store_row b1 (?lr + 1) S
        else Some b1) = Some b2"
    proof -
      have "cols (bs ! Suc r) - 2 = S"
        using sa(2) by simp
      then show ?thesis
        unfolding if_P [OF False] msg(1) Option.bind.bind_lunit by (simp add: msg(1) st)
    qed
    show "elems b2 ! i ! c =
        (if i = nat (?lr + 1) \<and> int r \<noteq> P - 1 \<and> 1 \<le> c \<and> c \<le> nat S
         then elems (bs ! Suc r) ! 1 ! c else elems b1 ! i ! c)"
      if "i < nat (?lr + 2)" "c < nat (S + 2)" for i c
    proof -
      have "i < length (elems b1)" "c < length (elems b1 ! i)"
        unfolding b1 using that sb(3) sb(4) [OF that(1)] by simp_all
      from n [OF this] show ?thesis
        using msg(3) [of c] False by simp
    qed
  qed (fact d)+
qed

lemma halo_exchange_props:
  assumes vp: "valid_partition P S"
    and shapes: "\<forall>q<nat P. board_shape P S (int q) (bs ! q)"
    and r: "r < nat P"
  obtains b' where "halo_exchange P bs (int r) = Some b'"
    "rows b' = rows (bs ! r)" "cols b' = cols (bs ! r)"
    "length (elems b') = length (elems (bs ! r))"
    "\<And>i. length (elems b' ! i) = length (elems (bs ! r) ! i)"
    "\<And>i c. i < nat (local_rows P (int r) S + 2) \<Longrightarrow> c < nat (S + 2) \<Longrightarrow>
       elems b' ! i ! c =
        (if i = 0 \<and> r \<noteq> 0 \<and> 1 \<le> c \<and> c \<le> nat S
         then elems (bs ! (r - 1)) ! nat (rows_per_process P S) ! c
         else if i = nat (local_rows P (int r) S + 1) \<and> int r \<noteq> P - 1 \<and> 1 \<le> c \<and> c \<le> nat S
         then elems (bs ! Suc r) ! 1 ! c
         else elems (bs ! r) ! i ! c)"
proof -
  let ?lr = "local_rows P (int r) S"
  let ?b = "bs ! r"
  have S: "0 < S"
    using vp by (simp add: valid_partition_def)
  have lr: "0 \<le> ?lr"
    using vp r by (intro local_rows_nonneg) simp_all
  note sb = board_shapeD [OF shapes [rule_format, OF r]]
  have colsb: "cols ?b - 2 = S"
    using sb(2) by simp
  have "r - 1 < nat P"
    using r by simp
  note sa = board_shapeD [OF shapes [rule_format, OF this]]
  have colsa: "cols (bs ! (r - 1)) - 2 = S"
    using sa(2) by simp
  obtain b1 where b1: "(if int r \<noteq> 0
        then row_buffer (bs ! (r - 1)) (local_rows P (int r - 1) S) S
               \<bind> store_row ?b 0 S
        else Some ?b) = Some b1"
    and b1_dims: "rows b1 = rows ?b" "cols b1 = cols ?b" "length (elems b1) = length (elems ?b)"
      "\<And>i. length (elems b1 ! i) = length (elems ?b ! i)"
    and b1_nth: "\<And>i c. i < nat (?lr + 2) \<Longrightarrow> c < nat (S + 2) \<Longrightarrow>
       elems b1 ! i ! c =
        (if i = 0 \<and> r \<noteq> 0 \<and> 1 \<le> c \<and> c \<le> nat S
         then elems (bs ! (r - 1)) ! nat (rows_per_process P S) ! c else elems ?b ! i ! c)"
    by (rule recv_above_props [OF vp shapes r]) (rule that)
  obtain b2 where b2: "(if int r \<noteq> P - 1
        then row_buffer (bs ! Suc r) 1 (cols (bs ! Suc r) - 2) \<bind> store_row b1 (?lr + 1) S
        else Some b1) = Some b2"
    and b2_dims: "rows b2 = rows b1" "cols b2 = cols b1" "length (elems b2) = length (elems b1)"
      "\<And>i. length (elems b2 ! i) = length (elems b1 ! i)"
    and b2_nth: "\<And>i c. i < nat (?lr + 2) \<Longrightarrow> c < nat (S + 2) \<Longrightarrow>
       elems b2 ! i ! c =
        (if i = nat (?lr + 1) \<and> int r \<noteq> P - 1 \<and> 1 \<le> c \<and> c \<le> nat S
         then elems (bs ! Suc r) ! 1 ! c else elems b1 ! i ! c)"
    by (rule recv_below_props [OF vp shapes r b1_dims(3,4)]) (rule that)
  have s1: "\<exists>m. row_buffer ?b 1 S = Some m"
  proof -
    have "1 < nat (?lr + 2)" using lr by simp
    then have "nat 1 < length (elems ?b)" "1 + nat S \<le> length (elems ?b ! nat 1)"
      using sb(3) sb(4) [of 1] S by simp_all
    then show ?thesis
      using S by (simp add: row_buffer_def)
  qed
  have s2: "\<exists>m. row_buffer ?b ?lr S = Some m"
  proof -
    have "nat ?lr < nat (?lr + 2)" using lr by simp
    then have "nat ?lr < length (elems ?b)" "1 + nat S \<le> length (elems ?b ! nat ?lr)"
      using sb(3) sb(4) [of "nat ?lr"] S by simp_all
    then show ?thesis
      using S lr by (simp add: row_buffer_def)
  qed
  have s1': "(if int r \<noteq> 0 then row_buffer ?b 1 S else Some []) \<bind> f = f (the (if int r \<noteq> 0 then row_buffer ?b 1 S else Some []))" for f :: "int list \<Rightarrow> twoD_array option"
    using s1 by auto
  have s2': "(if int r \<noteq> P - 1 then row_buffer ?b ?lr S else Some []) \<bind> f = f (the (if int r \<noteq> P - 1 then row_buffer ?b ?lr S else Some []))" for f :: "int list \<Rightarrow> twoD_array option"
    using s2 by auto
  have n1: "nat (int r - 1) = r - 1" "nat (int r + 1) = Suc r" "nat (int r) = r"
    by simp_all
  have "halo_exchange P bs (int r) = Some b2"
    unfolding halo_exchange_def Let_def n1 colsb colsa b1 Option.bind.bind_lunit b2 s1' s2'
    by (rule refl)
  then show ?thesis
  proof (rule that)
    show "elems b2 ! i ! c =
        (if i = 0 \<and> r \<noteq> 0 \<and> 1 \<le> c \<and> c \<le> nat S
         then elems (bs ! (r - 1)) ! nat (rows_per_process P S) ! c
         else if i = nat (?lr + 1) \<and> int r \<noteq> P - 1 \<and> 1 \<le> c \<and> c \<le> nat S
         then elems (bs ! Suc r) ! 1 ! c
         else elems ?b ! i ! c)"
      if "i < nat (?lr + 2)" "c < nat (S + 2)" for i c
      using b2_nth [OF that] b1_nth [OF that] lr by auto
  qed (simp_all add: b2_dims b1_dims)
qed

section \<open>The boards before the first generation\<close>

lemma length_fill_cols [simp]:
  "length (fold (\<lambda>j e. if c then set_cell e k j (f j) else e) js e) = length e"
  by (induction js arbitrary: e) simp_all

lemma length_fill_cols_row [simp]:
  "length (fold (\<lambda>j e. if c then set_cell e k j (f j) else e) js e ! a) = length (e ! a)"
  by (induction js arbitrary: e) simp_all

lemma length_fill_rows [simp]:
  "length (fold (\<lambda>i. fold (\<lambda>j e. if c i then set_cell e (k i) j (f i j) else e) js) is e)
     = length e"
  by (induction "is" arbitrary: e) simp_all

lemma length_fill_rows_row [simp]:
  "length (fold (\<lambda>i. fold (\<lambda>j e. if c i then set_cell e (k i) j (f i j) else e) js) is e ! a)
     = length (e ! a)"
  by (induction "is" arbitrary: e) simp_all

lemma well_formed_build_array: "well_formed (build_array u n m)"
  by (simp add: well_formed_def build_array_def list_all_length)

lemma rows_build_array [simp]: "rows (build_array u n m) = n"
  and cols_build_array [simp]: "cols (build_array u n m) = m"
  by (simp_all add: build_array_def)

lemma ring_clear_clear_border:
  assumes "well_formed a" "0 < rows a" "0 < cols a"
  shows "ring_clear nprocs r (clear_border a)"
proof -
  have len: "length (elems a) = nat (rows a)"
    and row: "\<And>k. k < nat (rows a) \<Longrightarrow> length (elems a ! k) = nat (cols a)"
    using assms(1) by (simp_all add: well_formedD)
  have z: "elems (clear_border a) ! k ! c = 0"
    if "k < nat (rows a)" "c < nat (cols a)"
      "k = 0 \<or> k = nat (rows a - 1) \<or> c = 0 \<or> c = nat (cols a - 1)" for k c
    using clear_border_nth [OF assms(1) that(1,2)] that(3) by auto
  have last: "nat (rows a - 1) < nat (rows a)" "nat (cols a - 1) < nat (cols a)"
    using assms(2,3) by simp_all
  have "0 < nat (rows a)" "0 < nat (cols a)"
    using assms(2,3) by simp_all
  then show ?thesis
    unfolding ring_clear_def using last
    by (auto simp: list_all_length len row intro!: z)
qed

lemma random_board_shape:
  "board_shape nprocs sz r (random_board rand_max rnd u nprocs r sz)"
  unfolding board_shape_def random_board_def Let_def
  by (intro conjI well_formed_clear_border well_formedI)
     (simp_all add: build_array_def)

lemma random_board_ring:
  assumes "0 \<le> local_rows nprocs r sz" "0 \<le> sz"
  shows "ring_clear nprocs r (random_board rand_max rnd u nprocs r sz)"
  unfolding random_board_def Let_def
  by (intro ring_clear_clear_border well_formedI) (use assms in \<open>simp_all add: build_array_def\<close>)

lemma new_board_shape:
  "board_shape nprocs sz r (clear_border (build_array u (local_rows nprocs r sz + 2) (sz + 2)))"
  unfolding board_shape_def
  by (intro conjI well_formed_clear_border well_formed_build_array) simp_all

lemma new_board_ring:
  assumes "0 \<le> local_rows nprocs r sz" "0 \<le> sz"
  shows "ring_clear nprocs r
           (clear_border (build_array u (local_rows nprocs r sz + 2) (sz + 2)))"
  by (intro ring_clear_clear_border well_formed_build_array) (use assms in simp_all)

lemma run_inv_initial:
  assumes "valid_partition nprocs sz"
  shows "run_inv nprocs sz (initial_boards rand_max rnd u1 u2 nprocs sz)"
proof -
  have S: "0 \<le> sz"
    using assms by (simp add: valid_partition_def)
  have "0 \<le> local_rows nprocs (int r) sz" if "r < nat nprocs" for r
    using assms that by (intro local_rows_nonneg) simp_all
  then show ?thesis
    unfolding run_inv_def initial_boards_def
    by (simp add: random_board_shape random_board_ring new_board_shape new_board_ring S)
qed

section \<open>The exchange in all processes\<close>

lemma those_map_Some:
  "(\<And>x. x \<in> set xs \<Longrightarrow> f x = Some (g x)) \<Longrightarrow> those (map f xs) = Some (map g xs)"
  by (induction xs) simp_all

lemma those_None: "None \<in> set xs \<Longrightarrow> those xs = None"
  by (induction xs) (auto split: option.splits)

lemma exchange_props:
  assumes vp: "valid_partition P S"
    and shapes: "\<forall>q<nat P. board_shape P S (int q) (bs ! q)"
  obtains bs' where "exchange P bs = Some bs'" "length bs' = nat P"
    "\<And>r. r < nat P \<Longrightarrow> rows (bs' ! r) = rows (bs ! r)"
    "\<And>r. r < nat P \<Longrightarrow> cols (bs' ! r) = cols (bs ! r)"
    "\<And>r. r < nat P \<Longrightarrow> length (elems (bs' ! r)) = length (elems (bs ! r))"
    "\<And>r i. r < nat P \<Longrightarrow> length (elems (bs' ! r) ! i) = length (elems (bs ! r) ! i)"
    "\<And>r i c. r < nat P \<Longrightarrow> i < nat (local_rows P (int r) S + 2) \<Longrightarrow> c < nat (S + 2) \<Longrightarrow>
       elems (bs' ! r) ! i ! c =
        (if i = 0 \<and> r \<noteq> 0 \<and> 1 \<le> c \<and> c \<le> nat S
         then elems (bs ! (r - 1)) ! nat (rows_per_process P S) ! c
         else if i = nat (local_rows P (int r) S + 1) \<and> int r \<noteq> P - 1 \<and> 1 \<le> c \<and> c \<le> nat S
         then elems (bs ! Suc r) ! 1 ! c
         else elems (bs ! r) ! i ! c)"
proof -
  define g where "g r = the (halo_exchange P bs (int r))" for r
  have g: "halo_exchange P bs (int r) = Some (g r)" if "r < nat P" for r
    using halo_exchange_props [OF vp shapes that] unfolding g_def by (metis option.sel)
  have ex: "exchange P bs = Some (map g [0..<nat P])"
    unfolding exchange_def by (rule those_map_Some) (simp add: g)
  show ?thesis
  proof (rule that [OF ex])
    show "length (map g [0..<nat P]) = nat P"
      by simp
  next
    fix r assume r: "r < nat P"
    then have nth: "map g [0..<nat P] ! r = g r"
      by simp
    obtain b' where b': "halo_exchange P bs (int r) = Some b'"
      "rows b' = rows (bs ! r)" "cols b' = cols (bs ! r)"
      "length (elems b') = length (elems (bs ! r))"
      "\<And>i. length (elems b' ! i) = length (elems (bs ! r) ! i)"
      "\<And>i c. i < nat (local_rows P (int r) S + 2) \<Longrightarrow> c < nat (S + 2) \<Longrightarrow>
       elems b' ! i ! c =
        (if i = 0 \<and> r \<noteq> 0 \<and> 1 \<le> c \<and> c \<le> nat S
         then elems (bs ! (r - 1)) ! nat (rows_per_process P S) ! c
         else if i = nat (local_rows P (int r) S + 1) \<and> int r \<noteq> P - 1 \<and> 1 \<le> c \<and> c \<le> nat S
         then elems (bs ! Suc r) ! 1 ! c
         else elems (bs ! r) ! i ! c)"
      by (rule halo_exchange_props [OF vp shapes r]) (rule that)
    have eq: "g r = b'"
      using g [OF r] b'(1) by simp
    show "rows (map g [0..<nat P] ! r) = rows (bs ! r)"
      "cols (map g [0..<nat P] ! r) = cols (bs ! r)"
      "length (elems (map g [0..<nat P] ! r)) = length (elems (bs ! r))"
      unfolding nth eq by (fact b'(2) b'(3) b'(4))+
    show "length (elems (map g [0..<nat P] ! r) ! i) = length (elems (bs ! r) ! i)" for i
      unfolding nth eq by (fact b'(5))
    show "elems (map g [0..<nat P] ! r) ! i ! c =
        (if i = 0 \<and> r \<noteq> 0 \<and> 1 \<le> c \<and> c \<le> nat S
         then elems (bs ! (r - 1)) ! nat (rows_per_process P S) ! c
         else if i = nat (local_rows P (int r) S + 1) \<and> int r \<noteq> P - 1 \<and> 1 \<le> c \<and> c \<le> nat S
         then elems (bs ! Suc r) ! 1 ! c
         else elems (bs ! r) ! i ! c)"
      if "i < nat (local_rows P (int r) S + 2)" "c < nat (S + 2)" for i c
      unfolding nth eq by (rule b'(6) [OF that])
  qed
qed

lemma ring_clear_iff:
  "ring_clear P r b \<longleftrightarrow>
     (\<forall>i<length (elems b). elems b ! i ! 0 = 0 \<and> elems b ! i ! nat (cols b - 1) = 0) \<and>
     (r = 0 \<longrightarrow> (\<forall>c<length (elems b ! 0). elems b ! 0 ! c = 0)) \<and>
     (r = P - 1 \<longrightarrow>
        (\<forall>c<length (elems b ! nat (rows b - 1)). elems b ! nat (rows b - 1) ! c = 0))"
  by (simp add: ring_clear_def list_all_length)

lemma rows_update_cells [simp]: "rows (update_cells b nb) = rows nb"
  and cols_update_cells [simp]: "cols (update_cells b nb) = cols nb"
  and length_update_cells [simp]: "length (elems (update_cells b nb)) = length (elems nb)"
  and length_update_cells_row [simp]:
    "length (elems (update_cells b nb) ! i) = length (elems nb ! i)"
  by (simp_all add: update_cells_def)

lemma well_formed_update_cells: "well_formed nb \<Longrightarrow> well_formed (update_cells b nb)"
  by (simp add: well_formed_def list_all_length)

lemma board_shape_update_cells:
  "board_shape P S r nb \<Longrightarrow> board_shape P S r (update_cells b nb)"
  by (simp add: board_shape_def well_formed_update_cells)

lemma ring_clear_update_cells:
  assumes "ring_clear P r nb" "rows b = rows nb" "cols b = cols nb"
  shows "ring_clear P r (update_cells b nb)"
  using assms unfolding ring_clear_iff
  by (auto simp: update_cells_nth)

lemma board_shape_cong:
  assumes "board_shape P S r b" "rows b' = rows b" "cols b' = cols b"
    "length (elems b') = length (elems b)"
    "\<And>i. length (elems b' ! i) = length (elems b ! i)"
  shows "board_shape P S r b'"
  using assms by (simp add: board_shape_def well_formed_def list_all_length)

lemma exchange_inv:
  assumes vp: "valid_partition P S"
    and shapes: "\<forall>q<nat P. board_shape P S (int q) (bs ! q)"
    and rings: "\<forall>q<nat P. ring_clear P (int q) (bs ! q)"
  obtains bs' where "exchange P bs = Some bs'" "length bs' = nat P"
    "\<forall>q<nat P. board_shape P S (int q) (bs' ! q)"
    "\<forall>q<nat P. ring_clear P (int q) (bs' ! q)"
proof -
  obtain bs' where ex: "exchange P bs = Some bs'" and len: "length bs' = nat P"
    and d: "\<And>r. r < nat P \<Longrightarrow> rows (bs' ! r) = rows (bs ! r)"
    "\<And>r. r < nat P \<Longrightarrow> cols (bs' ! r) = cols (bs ! r)"
    "\<And>r. r < nat P \<Longrightarrow> length (elems (bs' ! r)) = length (elems (bs ! r))"
    "\<And>r i. r < nat P \<Longrightarrow> length (elems (bs' ! r) ! i) = length (elems (bs ! r) ! i)"
    and n: "\<And>r i c. r < nat P \<Longrightarrow> i < nat (local_rows P (int r) S + 2) \<Longrightarrow> c < nat (S + 2) \<Longrightarrow>
       elems (bs' ! r) ! i ! c =
        (if i = 0 \<and> r \<noteq> 0 \<and> 1 \<le> c \<and> c \<le> nat S
         then elems (bs ! (r - 1)) ! nat (rows_per_process P S) ! c
         else if i = nat (local_rows P (int r) S + 1) \<and> int r \<noteq> P - 1 \<and> 1 \<le> c \<and> c \<le> nat S
         then elems (bs ! Suc r) ! 1 ! c
         else elems (bs ! r) ! i ! c)"
    by (rule exchange_props [OF vp shapes]) (rule that)
  have S: "0 < S"
    using vp by (simp add: valid_partition_def)
  show ?thesis
  proof (rule that [OF ex len])
    show "\<forall>q<nat P. board_shape P S (int q) (bs' ! q)"
      using shapes d by (auto intro: board_shape_cong)
    show "\<forall>q<nat P. ring_clear P (int q) (bs' ! q)"
    proof (intro allI impI)
      fix r assume r: "r < nat P"
      let ?lr = "local_rows P (int r) S"
      have lr: "0 \<le> ?lr"
        using vp r by (intro local_rows_nonneg) simp_all
      note sb = board_shapeD [OF shapes [rule_format, OF r]]
      have rc: "ring_clear P (int r) (bs ! r)"
        using rings r by simp
      have keep: "elems (bs' ! r) ! i ! c = elems (bs ! r) ! i ! c"
        if "i < nat (?lr + 2)" "c < nat (S + 2)"
          "c = 0 \<or> c = nat (S + 1) \<or> (i = 0 \<and> r = 0) \<or> (i = nat (?lr + 1) \<and> int r = P - 1)"
        for i c
        using n [OF r that(1,2)] that(3) S lr by auto
      show "ring_clear P (int r) (bs' ! r)"
        unfolding ring_clear_iff d(1) [OF r] d(2) [OF r] d(3) [OF r] d(4) [OF r]
      proof (intro conjI allI impI)
        fix i assume i: "i < length (elems (bs ! r))"
        then have i': "i < nat (?lr + 2)"
          using sb(3) by simp
        have "elems (bs' ! r) ! i ! 0 = elems (bs ! r) ! i ! 0"
          using S by (intro keep i') simp_all
        then show "elems (bs' ! r) ! i ! 0 = 0"
          using rc i unfolding ring_clear_iff by simp
        have cl: "nat (cols (bs ! r) - 1) = nat (S + 1)"
          using sb(2) by simp
        have "elems (bs' ! r) ! i ! nat (cols (bs ! r) - 1) = elems (bs ! r) ! i ! nat (cols (bs ! r) - 1)"
          unfolding cl using S by (intro keep i') simp_all
        then show "elems (bs' ! r) ! i ! nat (cols (bs ! r) - 1) = 0"
          using rc i unfolding ring_clear_iff by simp
      next
        fix c assume r0: "int r = 0" and c: "c < length (elems (bs ! r) ! 0)"
        have i': "0 < nat (?lr + 2)"
          using lr by simp
        have c': "c < nat (S + 2)"
          using c sb(4) [OF i'] by simp
        have "elems (bs' ! r) ! 0 ! c = elems (bs ! r) ! 0 ! c"
          using r0 by (intro keep i' c') simp
        then show "elems (bs' ! r) ! 0 ! c = 0"
          using rc r0 c unfolding ring_clear_iff by simp
      next
        fix c assume rl: "int r = P - 1"
          and c: "c < length (elems (bs ! r) ! nat (rows (bs ! r) - 1))"
        have e: "nat (rows (bs ! r) - 1) = nat (?lr + 1)"
          using sb(1) by simp
        have i': "nat (?lr + 1) < nat (?lr + 2)"
          using lr by simp
        have c': "c < nat (S + 2)"
          using c sb(4) [OF i'] unfolding e by simp
        have "elems (bs' ! r) ! nat (?lr + 1) ! c = elems (bs ! r) ! nat (?lr + 1) ! c"
          using rl by (intro keep i' c') simp
        then show "elems (bs' ! r) ! nat (rows (bs ! r) - 1) ! c = 0"
          using rc rl c unfolding ring_clear_iff e by simp
      qed
    qed
  qed
qed

section \<open>The invariant of the run and the halo rows\<close>

lemma run_invD:
  assumes "run_inv P S (bs, nbs)"
  shows "length bs = nat P" "length nbs = nat P"
    "\<forall>q<nat P. board_shape P S (int q) (bs ! q)"
    "\<forall>q<nat P. ring_clear P (int q) (bs ! q)"
    "\<forall>q<nat P. board_shape P S (int q) (nbs ! q)"
    "\<forall>q<nat P. ring_clear P (int q) (nbs ! q)"
  using assms by (simp_all add: run_inv_def)

lemma generation_inv:
  assumes vp: "valid_partition P S" and inv: "run_inv P S (bs, nbs)"
  obtains bs' where "exchange P bs = Some bs'"
    "generation P (bs, nbs) = Some (map (\<lambda>(b, nb). update_cells b nb) (zip bs' nbs), bs')"
    "run_inv P S (map (\<lambda>(b, nb). update_cells b nb) (zip bs' nbs), bs')"
proof -
  note i = run_invD [OF inv]
  obtain bs' where ex: "exchange P bs = Some bs'" and len: "length bs' = nat P"
    and sh: "\<forall>q<nat P. board_shape P S (int q) (bs' ! q)"
    and ri: "\<forall>q<nat P. ring_clear P (int q) (bs' ! q)"
    by (rule exchange_inv [OF vp i(3) i(4)]) (rule that)
  show ?thesis
  proof (rule that [OF ex])
    show "generation P (bs, nbs) = Some (map (\<lambda>(b, nb). update_cells b nb) (zip bs' nbs), bs')"
      by (simp add: generation_def ex)
    have "board_shape P S (int q) (update_cells (bs' ! q) (nbs ! q)) \<and>
          ring_clear P (int q) (update_cells (bs' ! q) (nbs ! q))" if "q < nat P" for q
    proof
      show "board_shape P S (int q) (update_cells (bs' ! q) (nbs ! q))"
        using i(5) that by (intro board_shape_update_cells) simp
      have "rows (bs' ! q) = rows (nbs ! q)" "cols (bs' ! q) = cols (nbs ! q)"
        using sh i(5) that by (simp_all add: board_shape_def)
      then show "ring_clear P (int q) (update_cells (bs' ! q) (nbs ! q))"
        using i(6) that by (intro ring_clear_update_cells) simp_all
    qed
    then show "run_inv P S (map (\<lambda>(b, nb). update_cells b nb) (zip bs' nbs), bs')"
      using len i(2) sh ri by (simp add: run_inv_def)
  qed
qed

lemma generations_inv:
  assumes vp: "valid_partition P S" and inv: "run_inv P S st"
  shows "\<exists>st'. generations P g st = Some st' \<and> run_inv P S st'"
proof (induction g)
  case 0
  show ?case using inv by simp
next
  case (Suc g)
  then obtain bs nbs where st: "generations P g st = Some (bs, nbs)" "run_inv P S (bs, nbs)"
    by auto
  obtain bs' where "generation P (bs, nbs) = Some (map (\<lambda>(b, nb). update_cells b nb) (zip bs' nbs), bs')"
    "run_inv P S (map (\<lambda>(b, nb). update_cells b nb) (zip bs' nbs), bs')"
    by (rule generation_inv [OF vp st(2)]) (rule that)
  then show ?case
    using st(1) by simp
qed

lemma mpi_run_inv:
  assumes "valid_partition P S"
  shows "\<exists>st. mpi_run rand_max rnd u1 u2 P S g = Some st \<and> run_inv P S st"
  unfolding mpi_run_def
  by (intro generations_inv assms run_inv_initial)

text \<open>
  The halo rows in a run whose partition is valid: at every generation the
  exchange completes in every process, and in the boards \<open>bs'\<close> it leaves (the
  ones the local step then reads) row 0 of process \<open>r\<close> holds, in columns
  \<open>1..sz\<close>, row \<open>local_rows\<close> (the last interior row) of process \<open>r - 1\<close>, or
  zeros when \<open>r = 0\<close>, and row \<open>local_rows + 1\<close> holds row 1 (the first interior
  row) of process \<open>r + 1\<close>, or zeros when \<open>r\<close> is the last process. Without the
  hypothesis the exchange need not complete (section ``Five rows on four
  processes'').
\<close>

lemma halo_rows_valid_partition:
  assumes vp: "valid_partition nprocs sz"
  shows "\<exists>bs nbs bs'.
     mpi_run rand_max rnd u1 u2 nprocs sz g = Some (bs, nbs) \<and>
     exchange nprocs bs = Some bs' \<and> length bs' = nat nprocs \<and>
     (\<forall>r c. r < nat nprocs \<and> 1 \<le> c \<and> c \<le> nat sz \<longrightarrow>
        elems (bs' ! r) ! 0 ! c =
          (if r = 0 then 0
           else elems (bs' ! (r - 1)) ! nat (local_rows nprocs (int r - 1) sz) ! c) \<and>
        elems (bs' ! r) ! nat (local_rows nprocs (int r) sz + 1) ! c =
          (if int r = nprocs - 1 then 0 else elems (bs' ! (r + 1)) ! 1 ! c))"
proof -
  let ?P = nprocs and ?S = sz
  let ?q = "rows_per_process nprocs sz"
  obtain bs nbs where run: "mpi_run rand_max rnd u1 u2 nprocs sz g = Some (bs, nbs)"
    and inv: "run_inv nprocs sz (bs, nbs)"
    using mpi_run_inv [OF vp] by (metis surj_pair)
  note i = run_invD [OF inv]
  obtain bs' where ex: "exchange ?P bs = Some bs'" and len: "length bs' = nat ?P"
    and n: "\<And>r i c. r < nat ?P \<Longrightarrow> i < nat (local_rows ?P (int r) ?S + 2) \<Longrightarrow> c < nat (?S + 2) \<Longrightarrow>
       elems (bs' ! r) ! i ! c =
        (if i = 0 \<and> r \<noteq> 0 \<and> 1 \<le> c \<and> c \<le> nat ?S
         then elems (bs ! (r - 1)) ! nat ?q ! c
         else if i = nat (local_rows ?P (int r) ?S + 1) \<and> int r \<noteq> ?P - 1 \<and> 1 \<le> c \<and> c \<le> nat ?S
         then elems (bs ! Suc r) ! 1 ! c
         else elems (bs ! r) ! i ! c)"
    by (rule exchange_props [OF vp i(3)]) (rule that)
  have P: "1 \<le> ?P" and S: "0 < ?S"
    using vp by (simp_all add: valid_partition_def)
  have q: "1 \<le> ?q"
    using P S by (rule rows_per_process_pos)
  have halo: "elems (bs' ! r) ! 0 ! c =
          (if r = 0 then 0
           else elems (bs' ! (r - 1)) ! nat (local_rows ?P (int r - 1) ?S) ! c) \<and>
        elems (bs' ! r) ! nat (local_rows ?P (int r) ?S + 1) ! c =
          (if int r = ?P - 1 then 0 else elems (bs' ! (r + 1)) ! 1 ! c)"
    if r: "r < nat ?P" and c: "1 \<le> c" "c \<le> nat ?S" for r c
  proof
    let ?lr = "local_rows ?P (int r) ?S"
    have lr: "0 \<le> ?lr"
      using vp r by (intro local_rows_nonneg) simp_all
    note sb = board_shapeD [OF i(3) [rule_format, OF r]]
    have rc: "ring_clear ?P (int r) (bs ! r)"
      using i(4) r by simp
    have c': "c < nat (?S + 2)"
      using c by linarith
    have i0: "0 < nat (?lr + 2)" and il: "nat (?lr + 1) < nat (?lr + 2)"
      using lr by simp_all
    show "elems (bs' ! r) ! 0 ! c =
          (if r = 0 then 0
           else elems (bs' ! (r - 1)) ! nat (local_rows ?P (int r - 1) ?S) ! c)"
    proof (cases "r = 0")
      case True
      have "elems (bs' ! r) ! 0 ! c = elems (bs ! r) ! 0 ! c"
        using n [OF r i0 c'] True lr by simp
      also have "\<dots> = 0"
        using rc True c' sb(4) [OF i0] unfolding ring_clear_iff by simp
      finally show ?thesis
        using True by simp
    next
      case False
      then have r1: "r - 1 < nat ?P" "int (r - 1) \<noteq> ?P - 1" "int r - 1 = int (r - 1)"
        using r by linarith+
      have lra: "local_rows ?P (int (r - 1)) ?S = ?q"
        by (rule local_rows_inner) (fact r1(2))
      have iq: "nat ?q < nat (local_rows ?P (int (r - 1)) ?S + 2)"
        unfolding lra using q by linarith
      have ne: "nat ?q \<noteq> nat (?q + 1)" "nat ?q \<noteq> 0"
        using q by linarith+
      have "elems (bs' ! (r - 1)) ! nat ?q ! c = elems (bs ! (r - 1)) ! nat ?q ! c"
        using n [OF r1(1) iq c'] ne unfolding lra by simp
      moreover have "elems (bs' ! r) ! 0 ! c = elems (bs ! (r - 1)) ! nat ?q ! c"
        using n [OF r i0 c'] False c by simp
      ultimately show ?thesis
        unfolding r1(3) lra using False by simp
    qed
    show "elems (bs' ! r) ! nat (?lr + 1) ! c =
          (if int r = ?P - 1 then 0 else elems (bs' ! (r + 1)) ! 1 ! c)"
    proof (cases "int r = ?P - 1")
      case True
      have e: "nat (rows (bs ! r) - 1) = nat (?lr + 1)"
        using sb(1) by simp
      have "elems (bs' ! r) ! nat (?lr + 1) ! c = elems (bs ! r) ! nat (?lr + 1) ! c"
        using n [OF r il c'] True lr by simp
      also have "\<dots> = 0"
        using rc True c' sb(4) [OF il] unfolding ring_clear_iff e by simp
      finally show ?thesis
        using True by simp
    next
      case False
      then have r1: "Suc r < nat ?P"
        using r by linarith
      have lrb: "0 \<le> local_rows ?P (int (Suc r)) ?S"
        using vp r1 by (intro local_rows_nonneg) simp_all
      have i1: "1 < nat (local_rows ?P (int (Suc r)) ?S + 2)"
        using lrb by linarith
      have keep: "\<not> (1 = nat (local_rows ?P (int (Suc r)) ?S + 1) \<and> int (Suc r) \<noteq> ?P - 1)"
      proof
        assume a: "1 = nat (local_rows ?P (int (Suc r)) ?S + 1) \<and> int (Suc r) \<noteq> ?P - 1"
        then have "local_rows ?P (int (Suc r)) ?S = ?q"
          by (intro local_rows_inner) simp
        with a q show False by linarith
      qed
      have k1: "\<not> ((1::nat) = 0 \<and> Suc r \<noteq> 0 \<and> 1 \<le> c \<and> c \<le> nat ?S)"
        by simp
      have k2: "\<not> (1 = nat (local_rows ?P (int (Suc r)) ?S + 1) \<and> int (Suc r) \<noteq> ?P - 1
                  \<and> 1 \<le> c \<and> c \<le> nat ?S)"
        using keep by blast
      have "elems (bs' ! Suc r) ! 1 ! c = elems (bs ! Suc r) ! 1 ! c"
        unfolding n [OF r1 i1 c'] if_not_P [OF k1] if_not_P [OF k2] by (rule refl)
      moreover have "elems (bs' ! r) ! nat (?lr + 1) ! c = elems (bs ! Suc r) ! 1 ! c"
        using n [OF r il c'] False c lr by simp
      ultimately show ?thesis
        using False by simp
    qed
  qed
  show ?thesis
    using run ex len halo by blast
qed

text \<open>
  Two rows on two processes, the grid with rows \<open>[1,0]\<close> and \<open>[0,1]\<close>: after the
  exchange the bottom halo of process 0 is the row \<open>[0,1]\<close> of process 1, and the
  top halo of process 1 is the row \<open>[1,0]\<close> of process 0.
\<close>

lemma exchange_2_rows_2_processes:
  "exchange 2 (fst (initial_boards 100 (\<lambda>k. if k = 0 \<or> k = 3 then 100 else 0) u1 u2 2 2))
   = Some [\<lparr>rows = 3, cols = 4, elems = [[0, 0, 0, 0], [0, 1, 0, 0], [0, 0, 1, 0]]\<rparr>,
           \<lparr>rows = 3, cols = 4, elems = [[0, 1, 0, 0], [0, 0, 1, 0], [0, 0, 0, 0]]\<rparr>]"
  by code_simp

section \<open>Five rows on four processes\<close>

lemma halo_exchange_send_above_None:
  assumes "myid \<noteq> 0"
    "row_buffer (bs ! nat myid) 1 (cols (bs ! nat myid) - 2) = None"
  shows "halo_exchange nprocs bs myid = None"
proof -
  have b: "x \<bind> (\<lambda>b1. f b1 \<bind> (\<lambda>b2. None \<bind> g b2)) = None"
    for x :: "twoD_array option" and f :: "twoD_array \<Rightarrow> twoD_array option"
      and g :: "twoD_array \<Rightarrow> int list \<Rightarrow> twoD_array option"
    by (cases x) (simp_all add: Option.bind_eq_None_conv)
  show ?thesis
    unfolding halo_exchange_def Let_def if_P [OF assms(1)] assms(2) by (rule b)
qed

lemma generations_Suc_None:
  "generation nprocs st = None \<Longrightarrow> generations nprocs (Suc g) st = None"
  by (induction g) simp_all

text \<open>
  Claim C2 (one process and four processes give the same final grid for every
  size \<open>S \<ge> 4\<close>). The code does not have the property at size 5: the last of
  the four processes gets \<open>local_rows = -1\<close>, its board has a single row, and in
  the first exchange its send buffer \<^verbatim>\<open>&(board->elems[1][1])\<close> lies outside the
  array. The run with four processes has no defined result from the first
  generation on, whatever the initial grid; the run with one process has one.
\<close>

theorem run_5_rows_4_processes:
  "mpi_run rand_max rnd u1 u2 4 5 (Suc g) = None \<and>
   (\<exists>st. mpi_run rand_max rnd u1' u2' 1 5 (Suc g) = Some st)"
proof
  let ?bs = "map (\<lambda>r. random_board rand_max rnd (u1 r) 4 (int r) 5) [0..<nat 4]"
  have q: "rows_per_process 4 5 = 2"
    by (simp add: rows_per_process_def signed_divide_int_def)
  have lr: "local_rows 4 3 5 = - 1"
    by (simp add: local_rows_def q)
  have b3: "?bs ! nat 3 = random_board rand_max rnd (u1 3) 4 3 5"
  proof -
    have "(3::nat) < length [0..<nat 4]"
      by simp
    then have "?bs ! 3 = random_board rand_max rnd (u1 3) 4 (int ([0..<nat 4] ! 3)) 5"
      by (simp only: nth_map nth_upt) simp
    then show ?thesis
      by simp
  qed
  have "length (elems (random_board rand_max rnd (u1 3) 4 3 5)) = nat (local_rows 4 3 5 + 2)"
    by (rule board_shapeD(3) [OF random_board_shape])
  then have "length (elems (?bs ! nat 3)) = 1"
    unfolding b3 lr by simp
  then have "row_buffer (?bs ! nat 3) 1 (cols (?bs ! nat 3) - 2) = None"
    by (simp add: row_buffer_def)
  then have "halo_exchange 4 ?bs 3 = None"
    by (intro halo_exchange_send_above_None) simp_all
  then have "None \<in> set (map (\<lambda>r. halo_exchange 4 ?bs (int r)) [0..<nat 4])"
  proof -
    have "halo_exchange 4 ?bs (int 3) \<in> (\<lambda>r. halo_exchange 4 ?bs (int r)) ` set [0..<nat 4]"
      by (rule imageI) simp
    then show ?thesis
      using \<open>halo_exchange 4 ?bs 3 = None\<close> by simp
  qed
  then have "exchange 4 ?bs = None"
    unfolding exchange_def by (rule those_None)
  then have "generation 4 (initial_boards rand_max rnd u1 u2 4 5) = None"
    by (simp add: generation_def initial_boards_def)
  then show "mpi_run rand_max rnd u1 u2 4 5 (Suc g) = None"
    unfolding mpi_run_def by (rule generations_Suc_None)
next
  have "valid_partition 1 5"
    by (simp add: valid_partition_def)
  from mpi_run_inv [OF this]
  show "\<exists>st. mpi_run rand_max rnd u1' u2' 1 5 (Suc g) = Some st"
    by blast
qed

lemma nth_initial_boards:
  "r < nat nprocs \<Longrightarrow>
   fst (initial_boards rand_max rnd u1 u2 nprocs sz) ! r
     = random_board rand_max rnd (u1 r) nprocs (int r) sz"
  by (simp add: initial_boards_def)

lemma random_board_4_3_5:
  "random_board rand_max rnd u 4 3 5
     = \<lparr>rows = 1, cols = 7, elems = [[0, 0, 0, 0, 0, 0, 0]]\<rparr>"
  by code_simp

lemma random_board_4_2_5:
  "random_board rand_max rnd u 4 2 5
     = \<lparr>rows = 4, cols = 7,
        elems = [[0, 0, 0, 0, 0, 0, 0],
                 [0, temp_cell rand_max rnd 5 5 1, temp_cell rand_max rnd 5 5 2,
                  temp_cell rand_max rnd 5 5 3, temp_cell rand_max rnd 5 5 4,
                  temp_cell rand_max rnd 5 5 5, 0],
                 [0, u 2 1, u 2 2, u 2 3, u 2 4, u 2 5, 0],
                 [0, 0, 0, 0, 0, 0, 0]]\<rparr>"
  by code_simp

lemma halo_exchange_recv_below_None:
  assumes "myid \<noteq> nprocs - 1"
    "row_buffer (bs ! nat (myid + 1)) 1 (cols (bs ! nat (myid + 1)) - 2) = None"
  shows "halo_exchange nprocs bs myid = None"
proof -
  have b: "x \<bind> (\<lambda>b1. (None \<bind> f b1) \<bind> g b1) = None"
    for x :: "twoD_array option" and f :: "twoD_array \<Rightarrow> int list \<Rightarrow> twoD_array option"
      and g :: "twoD_array \<Rightarrow> twoD_array \<Rightarrow> twoD_array option"
    by (cases x) simp_all
  show ?thesis
    unfolding halo_exchange_def Let_def if_P [OF assms(1)] assms(2) by (rule b)
qed

text \<open>
  Claim C5 (after the exchange and before the local step, in every process row
  0 holds the last interior row of the process above, or zeros in process 0,
  and row \<open>local_rows + 1\<close> the first interior row of the process below, or
  zeros in the last process, in columns \<open>1..size\<close>). The code does not have the
  property at 5 rows on 4 processes, a run that it accepts. The board of
  the last process has the single row 0, which is also its row
  \<open>local_rows + 1\<close>; the message that process 2 sends to it is its local row 2,
  which \<^verbatim>\<open>random_board\<close> never filled (it would be row 6 of the grid) and which
  holds what \<^verbatim>\<open>malloc\<close> left there, and the receive writes it over that row in
  place of the zeros. The last process has no first interior row: its send
  buffer \<^verbatim>\<open>&(board->elems[1][1])\<close>, from which process 2 is to receive its
  bottom halo, lies outside the board. The exchange has no defined result in
  process 3, and so none in the run.
\<close>

theorem exchange_5_rows_4_processes:
  "local_rows 4 3 5 + 1 = 0 \<and>
   fst (initial_boards rand_max rnd u1 u2 4 5) ! 3
     = \<lparr>rows = 1, cols = 7, elems = [[0, 0, 0, 0, 0, 0, 0]]\<rparr> \<and>
   row_buffer (fst (initial_boards rand_max rnd u1 u2 4 5) ! 2) (local_rows 4 2 5) 5
     = Some [u1 2 2 1, u1 2 2 2, u1 2 2 3, u1 2 2 4, u1 2 2 5] \<and>
   store_row (fst (initial_boards rand_max rnd u1 u2 4 5) ! 3) 0 5
       [u1 2 2 1, u1 2 2 2, u1 2 2 3, u1 2 2 4, u1 2 2 5]
     = Some \<lparr>rows = 1, cols = 7,
             elems = [[0, u1 2 2 1, u1 2 2 2, u1 2 2 3, u1 2 2 4, u1 2 2 5, 0]]\<rparr> \<and>
   row_buffer (fst (initial_boards rand_max rnd u1 u2 4 5) ! 3) 1 5 = None \<and>
   halo_exchange 4 (fst (initial_boards rand_max rnd u1 u2 4 5)) 3 = None \<and>
   exchange 4 (fst (initial_boards rand_max rnd u1 u2 4 5)) = None"
proof -
  let ?bs = "fst (initial_boards rand_max rnd u1 u2 4 5)"
  have b3: "?bs ! 3 = \<lparr>rows = 1, cols = 7, elems = [[0, 0, 0, 0, 0, 0, 0]]\<rparr>"
    using nth_initial_boards [of 3 4 rand_max rnd u1 u2 5]
    by (simp add: random_board_4_3_5)
  have b2: "?bs ! 2 = random_board rand_max rnd (u1 2) 4 2 5"
    using nth_initial_boards [of 2 4 rand_max rnd u1 u2 5] by simp
  have lr: "local_rows 4 3 5 + 1 = 0" "local_rows 4 2 5 = 2"
    by (simp_all add: local_rows_def rows_per_process_def signed_divide_int_def)
  have msg: "row_buffer (?bs ! 2) (local_rows 4 2 5) 5
     = Some [u1 2 2 1, u1 2 2 2, u1 2 2 3, u1 2 2 4, u1 2 2 5]"
    unfolding b2 lr random_board_4_2_5 by (simp add: row_buffer_def)
  have recv: "store_row (?bs ! 3) 0 5 [u1 2 2 1, u1 2 2 2, u1 2 2 3, u1 2 2 4, u1 2 2 5]
     = Some \<lparr>rows = 1, cols = 7,
             elems = [[0, u1 2 2 1, u1 2 2 2, u1 2 2 3, u1 2 2 4, u1 2 2 5, 0]]\<rparr>"
    unfolding b3 by (simp add: store_row_def)
  have send: "row_buffer (?bs ! 3) 1 5 = None"
    unfolding b3 by (simp add: row_buffer_def)
  have "row_buffer (?bs ! nat 3) 1 (cols (?bs ! nat 3) - 2) = None"
    using send by (simp add: b3)
  then have he: "halo_exchange 4 ?bs 3 = None"
    by (intro halo_exchange_send_above_None) simp_all
  have "halo_exchange 4 ?bs (int 3) \<in> (\<lambda>r. halo_exchange 4 ?bs (int r)) ` set [0..<nat 4]"
    by (rule imageI) simp
  then have "None \<in> set (map (\<lambda>r. halo_exchange 4 ?bs (int r)) [0..<nat 4])"
    using he by simp
  then have "exchange 4 ?bs = None"
    unfolding exchange_def by (rule those_None)
  then show ?thesis
    using lr(1) b3 msg recv send he by simp
qed

section \<open>Torus against zero border\<close>

lemma read_neighbor_wrap:
  assumes "0 < s" "0 \<le> i" "i < s" "0 \<le> j" "j < s"
  shows "read_neighbor m s (- 1) j = m ! nat (s - 1) ! nat j"
    "read_neighbor m s s j = m ! 0 ! nat j"
    "read_neighbor m s i (- 1) = m ! nat i ! nat (s - 1)"
    "read_neighbor m s i s = m ! nat i ! 0"
  using assms by (simp_all add: read_neighbor_def)

lemma ring_of_exchanged_boards:
  assumes vp: "valid_partition nprocs sz"
  shows "\<exists>bs nbs bs'.
     mpi_run rand_max rnd u1 u2 nprocs sz g = Some (bs, nbs) \<and>
     exchange nprocs bs = Some bs' \<and>
     (\<forall>r<nat nprocs.
        (\<forall>k<nat (local_rows nprocs (int r) sz + 2).
           elems (bs' ! r) ! k ! 0 = 0 \<and> elems (bs' ! r) ! k ! nat (sz + 1) = 0) \<and>
        (r = 0 \<longrightarrow> (\<forall>c<nat (sz + 2). elems (bs' ! r) ! 0 ! c = 0)) \<and>
        (int r = nprocs - 1 \<longrightarrow>
           (\<forall>c<nat (sz + 2).
              elems (bs' ! r) ! nat (local_rows nprocs (int r) sz + 1) ! c = 0)))"
proof -
  obtain bs nbs where run: "mpi_run rand_max rnd u1 u2 nprocs sz g = Some (bs, nbs)"
    and inv: "run_inv nprocs sz (bs, nbs)"
    using mpi_run_inv [OF vp] by (metis surj_pair)
  note i = run_invD [OF inv]
  obtain bs' where ex: "exchange nprocs bs = Some bs'"
    and sh: "\<forall>q<nat nprocs. board_shape nprocs sz (int q) (bs' ! q)"
    and ri: "\<forall>q<nat nprocs. ring_clear nprocs (int q) (bs' ! q)"
    by (rule exchange_inv [OF vp i(3) i(4)]) (rule that)
  have "(\<forall>k<nat (local_rows nprocs (int r) sz + 2).
           elems (bs' ! r) ! k ! 0 = 0 \<and> elems (bs' ! r) ! k ! nat (sz + 1) = 0) \<and>
        (r = 0 \<longrightarrow> (\<forall>c<nat (sz + 2). elems (bs' ! r) ! 0 ! c = 0)) \<and>
        (int r = nprocs - 1 \<longrightarrow>
           (\<forall>c<nat (sz + 2).
              elems (bs' ! r) ! nat (local_rows nprocs (int r) sz + 1) ! c = 0))"
    if r: "r < nat nprocs" for r
  proof -
    let ?lr = "local_rows nprocs (int r) sz"
    have lr: "0 \<le> ?lr"
      using vp r by (intro local_rows_nonneg) simp_all
    note sb = board_shapeD [OF sh [rule_format, OF r]]
    have rc: "ring_clear nprocs (int r) (bs' ! r)"
      using ri r by simp
    have e: "nat (cols (bs' ! r) - 1) = nat (sz + 1)" "nat (rows (bs' ! r) - 1) = nat (?lr + 1)"
      using sb(1,2) by simp_all
    have l0: "length (elems (bs' ! r) ! 0) = nat (sz + 2)"
      and ll: "length (elems (bs' ! r) ! nat (?lr + 1)) = nat (sz + 2)"
      using lr by (intro sb(4); simp)+
    show ?thesis
      using rc unfolding ring_clear_iff e sb(3) l0 ll by simp
  qed
  then show ?thesis
    using run ex by blast
qed

text \<open>
  The two policies differ where both are defined: from the grid with rows
  \<open>[1,1]\<close> and \<open>[0,0]\<close> game.c computes the same grid again (on the torus every
  cell has three live neighbours or two), game\_mpi.c on one process the dead
  grid (beyond the border nothing lives, and each live cell has one live
  neighbour).
\<close>

lemma torus_against_zero_border_2x2:
  "process_generation [[1, 1], [0, 0]] (new_matrix u 2) 2 = [[1, 1], [0, 0]]"
  "global_grid 1 2 (fst (initial_boards 100 (\<lambda>k. if k < 2 then 100 else 0) v1 v2 1 2))
     = [[1, 1], [0, 0]]"
  "map_option (global_grid 1 2 \<circ> fst)
       (mpi_run 100 (\<lambda>k. if k < 2 then 100 else 0) v1 v2 1 2 1)
     = Some [[0, 0], [0, 0]]"
  by code_simp+

text \<open>
  Claim C9 (game.c and game\_omp.c read their neighbours on the torus, index
  \<open>-1\<close> at \<open>S - 1\<close> and index \<open>S\<close> at 0; game\_mpi.c reads the neighbours
  outside a process's rows from a zero-filled border ring, without wraparound).
  The torus is what \<^verbatim>\<open>read_neighbor\<close> computes (lemmas \<open>read_neighbor_torus\<close>
  and \<open>read_neighbor_wrap\<close>), and in a run with a valid partition the ring is
  zero (lemma \<open>ring_of_exchanged_boards\<close>). The code does not have the
  property of the claim at 5 rows on 4 processes. Process 2 holds the grid's
  last row 5 in its local row 1, and the local step treats its local rows 1 and
  2 as interior. The cells below row 5 are those of local row 2, which
  \<^verbatim>\<open>random_board\<close> never fills and \<^verbatim>\<open>clear_border\<close> clears in the two outer
  columns only: they hold what \<^verbatim>\<open>malloc\<close> left there (\<open>u1 2\<close>), and the
  neighbour sum of a cell of row 5 counts them (below: the sum at local row 1,
  column 3, on the board as \<^verbatim>\<open>random_board\<close> leaves it). The border row of
  process 2 below that, its row 3, is to be received from the send buffer
  \<^verbatim>\<open>&(board->elems[1][1])\<close> of process 3, which lies outside that process's
  one-row board, so the exchange of process 2 has no defined result.
\<close>

theorem border_5_rows_4_processes:
  "fst (initial_boards rand_max rnd u1 u2 4 5) ! 2
     = \<lparr>rows = 4, cols = 7,
        elems = [[0, 0, 0, 0, 0, 0, 0],
                 [0, temp_cell rand_max rnd 5 5 1, temp_cell rand_max rnd 5 5 2,
                  temp_cell rand_max rnd 5 5 3, temp_cell rand_max rnd 5 5 4,
                  temp_cell rand_max rnd 5 5 5, 0],
                 [0, u1 2 2 1, u1 2 2 2, u1 2 2 3, u1 2 2 4, u1 2 2 5, 0],
                 [0, 0, 0, 0, 0, 0, 0]]\<rparr> \<and>
   [1..<nat (rows (fst (initial_boards rand_max rnd u1 u2 4 5) ! 2) - 1)] = [1, 2] \<and>
   nbrs (elems (fst (initial_boards rand_max rnd u1 u2 4 5) ! 2)) 1 3
     = wrap_int (temp_cell rand_max rnd 5 5 2 + temp_cell rand_max rnd 5 5 4
                 + u1 2 2 2 + u1 2 2 3 + u1 2 2 4) \<and>
   row_buffer (fst (initial_boards rand_max rnd u1 u2 4 5) ! 3) 1
       (cols (fst (initial_boards rand_max rnd u1 u2 4 5) ! 3) - 2) = None \<and>
   halo_exchange 4 (fst (initial_boards rand_max rnd u1 u2 4 5)) 2 = None"
proof -
  let ?bs = "fst (initial_boards rand_max rnd u1 u2 4 5)"
  have b2: "?bs ! 2 = random_board rand_max rnd (u1 2) 4 2 5"
    using nth_initial_boards [of 2 4 rand_max rnd u1 u2 5] by simp
  have b3: "?bs ! 3 = \<lparr>rows = 1, cols = 7, elems = [[0, 0, 0, 0, 0, 0, 0]]\<rparr>"
    using nth_initial_boards [of 3 4 rand_max rnd u1 u2 5]
    by (simp add: random_board_4_3_5)
  note board = b2 [unfolded random_board_4_2_5]
  have loop: "[1..<nat (rows (?bs ! 2) - 1)] = [1, 2]"
    unfolding board by (simp add: upt_conv_Cons)
  have sum: "nbrs (elems (?bs ! 2)) 1 3
     = wrap_int (temp_cell rand_max rnd 5 5 2 + temp_cell rand_max rnd 5 5 4
                 + u1 2 2 2 + u1 2 2 3 + u1 2 2 4)"
    unfolding board by (simp add: nbrs_def numeral_3_eq_3 numeral_2_eq_2)
  have send: "row_buffer (?bs ! 3) 1 (cols (?bs ! 3) - 2) = None"
    unfolding b3 by (simp add: row_buffer_def)
  have "row_buffer (?bs ! nat (2 + 1)) 1 (cols (?bs ! nat (2 + 1)) - 2) = None"
    using send by simp
  then have "halo_exchange 4 ?bs 2 = None"
    by (intro halo_exchange_recv_below_None) simp_all
  then show ?thesis
    using board loop sum send by simp
qed

section \<open>What the local step writes\<close>

lemma update_cells_at_cols:
  assumes "s \<noteq> d"
  shows "fold (\<lambda>j m. m(d := (m d)\<lparr>elems :=
             set_cell (elems (m d)) i j (F (m s) j)\<rparr>)) js m
     = m(d := (m d)\<lparr>elems := fold (\<lambda>j e. set_cell e i j (F (m s) j)) js (elems (m d))\<rparr>)"
  using assms by (induction js arbitrary: m) simp_all

lemma update_cells_at_rows:
  assumes "s \<noteq> d"
  shows "fold (\<lambda>i. fold (\<lambda>j m. m(d := (m d)\<lparr>elems :=
             set_cell (elems (m d)) i j (F (m s) i j)\<rparr>)) js) is m
     = m(d := (m d)\<lparr>elems :=
          fold (\<lambda>i. fold (\<lambda>j e. set_cell e i j (F (m s) i j)) js) is (elems (m d))\<rparr>)"
proof (induction "is" arbitrary: m)
  case Nil
  show ?case by simp
next
  case (Cons a "is")
  let ?m1 = "fold (\<lambda>j m. m(d := (m d)\<lparr>elems :=
             set_cell (elems (m d)) a j (F (m s) a j)\<rparr>)) js m"
  have m1: "?m1 = m(d := (m d)\<lparr>elems :=
      fold (\<lambda>j e. set_cell e a j (F (m s) a j)) js (elems (m d))\<rparr>)"
    by (rule update_cells_at_cols [OF assms, where F = "\<lambda>b j. F b a j"])
  have "fold (\<lambda>i. fold (\<lambda>j m. m(d := (m d)\<lparr>elems :=
             set_cell (elems (m d)) i j (F (m s) i j)\<rparr>)) js) (a # is) m
    = fold (\<lambda>i. fold (\<lambda>j m. m(d := (m d)\<lparr>elems :=
             set_cell (elems (m d)) i j (F (m s) i j)\<rparr>)) js) is ?m1"
    by simp
  also have "\<dots> = ?m1(d := (?m1 d)\<lparr>elems :=
          fold (\<lambda>i. fold (\<lambda>j e. set_cell e i j (F (?m1 s) i j)) js) is (elems (?m1 d))\<rparr>)"
    by (rule Cons.IH)
  also have "\<dots> = m(d := (m d)\<lparr>elems :=
          fold (\<lambda>i. fold (\<lambda>j e. set_cell e i j (F (m s) i j)) js) (a # is) (elems (m d))\<rparr>)"
    unfolding m1 using assms by simp
  finally show ?case .
qed

lemma update_cells_at_distinct:
  assumes "board \<noteq> new_board"
  shows "update_cells_at board new_board mem
     = mem(new_board := update_cells (mem board) (mem new_board))"
  unfolding update_cells_at_def update_cells_def
  by (rule update_cells_at_rows [OF assms,
        where F = "\<lambda>b i j. apply_rules (elems b ! i ! j) (nbrs (elems b) i j)"])

text \<open>
  Claim C8. For a source and a destination board at different addresses, well
  formed and of the same dimensions, the local step leaves the source board (and
  every board other than the destination) as it was; it keeps the dimensions of
  the destination and every cell of its border ring (row 0, last row, column 0,
  last column); each interior cell of the destination receives the rule applied
  to source cells only, so the interior of the result is the same whatever the
  destination held before: no destination cell is read.
\<close>

theorem local_step_frame:
  assumes distinct: "board \<noteq> new_board"
    and wf: "well_formed (mem board)" "well_formed (mem new_board)"
    and dims: "rows (mem new_board) = rows (mem board)" "cols (mem new_board) = cols (mem board)"
  shows
    "update_cells_at board new_board mem board = mem board \<and>
     (\<forall>p. p \<noteq> new_board \<longrightarrow> update_cells_at board new_board mem p = mem p) \<and>
     rows (update_cells_at board new_board mem new_board) = rows (mem new_board) \<and>
     cols (update_cells_at board new_board mem new_board) = cols (mem new_board) \<and>
     well_formed (update_cells_at board new_board mem new_board) \<and>
     (\<forall>i j. i < nat (rows (mem new_board)) \<and> j < nat (cols (mem new_board)) \<and>
            (i = 0 \<or> int i = rows (mem new_board) - 1 \<or>
             j = 0 \<or> int j = cols (mem new_board) - 1) \<longrightarrow>
        elems (update_cells_at board new_board mem new_board) ! i ! j
          = elems (mem new_board) ! i ! j) \<and>
     (\<forall>i j. 1 \<le> i \<and> int i \<le> rows (mem board) - 2 \<and> 1 \<le> j \<and> int j \<le> cols (mem board) - 2 \<longrightarrow>
        elems (update_cells_at board new_board mem new_board) ! i ! j
          = apply_rules (elems (mem board) ! i ! j) (nbrs (elems (mem board)) i j)) \<and>
     (\<forall>mem2. mem2 board = mem board \<and> well_formed (mem2 new_board) \<and>
             rows (mem2 new_board) = rows (mem board) \<and>
             cols (mem2 new_board) = cols (mem board) \<longrightarrow>
        (\<forall>i j. 1 \<le> i \<and> int i \<le> rows (mem board) - 2 \<and> 1 \<le> j \<and> int j \<le> cols (mem board) - 2 \<longrightarrow>
           elems (update_cells_at board new_board mem2 new_board) ! i ! j
             = elems (update_cells_at board new_board mem new_board) ! i ! j))"
proof -
  note eq = update_cells_at_distinct [OF distinct]
  have inner: "elems (update_cells (mem board) nb) ! i ! j
      = apply_rules (elems (mem board) ! i ! j) (nbrs (elems (mem board)) i j)"
    if "well_formed nb" "rows nb = rows (mem board)" "cols nb = cols (mem board)"
      "1 \<le> i" "int i \<le> rows (mem board) - 2" "1 \<le> j" "int j \<le> cols (mem board) - 2"
    for nb i j
  proof -
    have "i < nat (rows nb)"
      using that by linarith
    then have "i < length (elems nb)" "j < length (elems nb ! i)"
      using that by (simp_all add: well_formedD)
    then show ?thesis
      using that by (simp add: update_cells_nth)
  qed
  have border: "elems (update_cells (mem board) (mem new_board)) ! i ! j
      = elems (mem new_board) ! i ! j"
    if "i = 0 \<or> int i = rows (mem new_board) - 1 \<or> j = 0 \<or> int j = cols (mem new_board) - 1"
    for i j
    using that dims by (auto simp: update_cells_nth)
  show ?thesis
    unfolding eq
    using distinct wf dims
    by (auto simp: inner border well_formed_update_cells)
qed

theorem local_step_frame_witness:
  "(let src = \<lparr>rows = 3, cols = 3, elems = [[0, 1, 0], [1, 1, 0], [0, 0, 0]]\<rparr>;
        dst = \<lparr>rows = 3, cols = 3, elems = [[9, 9, 9], [9, 9, 9], [9, 9, 9]]\<rparr>;
        mem = (\<lambda>p. if p = 0 then src else dst)
    in (0::nat) \<noteq> 1 \<and> well_formed (mem 0) \<and> well_formed (mem 1) \<and>
       rows (mem 1) = rows (mem 0) \<and> cols (mem 1) = cols (mem 0) \<and>
       update_cells_at 0 1 mem 0 = src \<and>
       update_cells_at 0 1 mem 2 = dst \<and>
       elems (update_cells_at 0 1 mem 1) ! 0 ! 2 = 9 \<and>
       elems (update_cells_at 0 1 mem 1) ! 1 ! 0 = 9 \<and>
       elems (update_cells_at 0 1 mem 1) ! 1 ! 1 = ALIVE)"
proof -
  define src where "src = \<lparr>rows = 3, cols = 3, elems = [[0, 1, 0], [1, 1, 0], [0, 0, 0::int]]\<rparr>"
  define dst where "dst = \<lparr>rows = 3, cols = 3, elems = [[9, 9, 9], [9, 9, 9], [9, 9, 9::int]]\<rparr>"
  define mem where "mem = (\<lambda>p::nat. if p = 0 then src else dst)"
  have m: "mem 0 = src" "mem 1 = dst" "mem 2 = dst"
    by (simp_all add: mem_def)
  have h: "(0::nat) \<noteq> 1" "well_formed (mem 0)" "well_formed (mem 1)"
    "rows (mem 1) = rows (mem 0)" "cols (mem 1) = cols (mem 0)"
    unfolding m by (simp_all add: src_def dst_def well_formed_def)
  note t = local_step_frame [OF h]
  have a: "update_cells_at 0 1 mem 0 = src"
    using t [THEN conjunct1] unfolding m .
  have b: "update_cells_at 0 1 mem 2 = dst"
    using t [THEN conjunct2, THEN conjunct1, rule_format, of 2] unfolding m by simp
  note border = t [THEN conjunct2, THEN conjunct2, THEN conjunct2, THEN conjunct2,
      THEN conjunct2, THEN conjunct1, rule_format]
  have c: "elems (update_cells_at 0 1 mem 1) ! 0 ! 2 = 9"
    using border [of 0 2] unfolding m by (simp add: dst_def)
  have d: "elems (update_cells_at 0 1 mem 1) ! 1 ! 0 = 9"
    using border [of 1 0] unfolding m by (simp add: dst_def)
  note interior = t [THEN conjunct2, THEN conjunct2, THEN conjunct2, THEN conjunct2,
      THEN conjunct2, THEN conjunct2, THEN conjunct1, rule_format]
  have e: "elems (update_cells_at 0 1 mem 1) ! 1 ! 1 = ALIVE"
    using interior [of 1 1] unfolding m
    by (simp add: src_def nbrs_def wrap_int_def apply_rules_def ALIVE_def)
  show ?thesis
    using h a b c d e unfolding Let_def m unfolding src_def dst_def mem_def by simp
qed

section \<open>One process against several\<close>

lemma fill_cols_eq:
  "fold (\<lambda>j e. if c then set_cell e k j (f j) else e) js e
     = (if c then fold (\<lambda>j e. set_cell e k j (f j)) js e else e)"
  by (induction js arbitrary: e) simp_all

lemma nth_fill_cols:
  "fold (\<lambda>j e. if c then set_cell e k j (f j) else e) js e ! a ! b =
     (if c \<and> a = k \<and> b \<in> set js \<and> k < length e \<and> b < length (e ! k) then f b
      else e ! a ! b)"
  by (simp add: fill_cols_eq nth_fold_cols)

lemma fill_rows_untouched:
  "(\<And>i. i \<in> set is \<Longrightarrow> c i \<Longrightarrow> \<kappa> i \<noteq> a) \<Longrightarrow>
   fold (\<lambda>i. fold (\<lambda>j e. if c i then set_cell e (\<kappa> i) j (f i j) else e) js) is e ! a ! b
     = e ! a ! b"
  by (induction "is" arbitrary: e) (auto simp: nth_fill_cols)

lemma nth_fill_rows:
  assumes "i0 \<in> set is" "c i0"
    and "\<And>i. i \<in> set is \<Longrightarrow> c i \<Longrightarrow> \<kappa> i = \<kappa> i0 \<Longrightarrow> i = i0"
    and "b \<in> set js" "\<kappa> i0 < length e" "b < length (e ! \<kappa> i0)"
  shows "fold (\<lambda>i. fold (\<lambda>j e. if c i then set_cell e (\<kappa> i) j (f i j) else e) js) is e
           ! \<kappa> i0 ! b = f i0 b"
  using assms
proof (induction "is" arbitrary: e)
  case Nil
  then show ?case by simp
next
  case (Cons i "is")
  let ?e1 = "fold (\<lambda>j e. if c i then set_cell e (\<kappa> i) j (f i j) else e) js e"
  have len: "\<kappa> i0 < length ?e1" "b < length (?e1 ! \<kappa> i0)"
    using Cons.prems(5,6) by simp_all
  show ?case
  proof (cases "i0 \<in> set is")
    case True
    have "fold (\<lambda>i. fold (\<lambda>j e. if c i then set_cell e (\<kappa> i) j (f i j) else e) js) is ?e1
           ! \<kappa> i0 ! b = f i0 b"
      using True Cons.prems(2,3,4) len by (intro Cons.IH) simp_all
    then show ?thesis by simp
  next
    case False
    then have i: "i = i0"
      using Cons.prems(1) by simp
    have "\<kappa> j \<noteq> \<kappa> i0" if "j \<in> set is" "c j" for j
      using Cons.prems(3) [of j] that False by auto
    then have "fold (\<lambda>i. fold (\<lambda>j e. if c i then set_cell e (\<kappa> i) j (f i j) else e) js) is ?e1
           ! \<kappa> i0 ! b = ?e1 ! \<kappa> i0 ! b"
      by (intro fill_rows_untouched) simp
    also have "\<dots> = f i0 b"
      using Cons.prems(2,4,5,6) unfolding i by (simp add: nth_fill_cols nth_fold_cols)
    finally show ?thesis by simp
  qed
qed

lemma random_board_nth:
  assumes vp: "valid_partition P S" and r: "r < nat P"
    and k: "1 \<le> k" "int k \<le> local_rows P (int r) S" and c: "c < nat (S + 2)"
  shows "elems (random_board rand_max rnd u P (int r) S) ! k ! c =
     (if 1 \<le> c \<and> int c \<le> S
      then temp_cell rand_max rnd S (r * nat (rows_per_process P S) + k) c else 0)"
proof -
  let ?q = "rows_per_process P S"
  let ?lr = "local_rows P (int r) S"
  let ?start = "local_start_row P (int r) S"
  let ?end = "local_end_row P (int r) S"
  let ?board = "build_array u (?lr + 2) (S + 2)"
  let ?cnd = "\<lambda>i. ?start \<le> int i \<and> int i < ?end"
  let ?\<kappa> = "\<lambda>i. nat (int i - ?start + 1)"
  let ?filled = "fold (\<lambda>i. fold (\<lambda>j e.
                    if ?cnd i then set_cell e (?\<kappa> i) j (temp_cell rand_max rnd S i j) else e)
                  [1..<nat (S + 1)])
              [1..<nat (S + 1)] (elems ?board)"
  let ?a = "?board\<lparr>elems := ?filled\<rparr>"
  have P: "1 \<le> P" and S: "0 < S" and fit: "(P - 1) * ?q \<le> S"
    using vp by (simp_all add: valid_partition_def)
  have q: "1 \<le> ?q"
    using P S by (rule rows_per_process_pos)
  have rb: "random_board rand_max rnd u P (int r) S = clear_border ?a"
    by (simp add: random_board_def Let_def)
  have wf: "well_formed ?a"
    by (intro well_formedI) (simp_all add: build_array_def)
  have dims: "rows ?a = ?lr + 2" "cols ?a = S + 2"
    by simp_all
  have kr: "k < nat (rows ?a)" and cc: "c < nat (cols ?a)"
    using k c by simp_all
  have start: "?start = int r * ?q + 1"
    by (simp add: local_start_row_def)
  have "?end = ?start + ?lr"
    by (rule local_end_row_eq)
  then have "end": "?end = int r * ?q + 1 + ?lr"
    using start by simp
  have top: "int r * ?q + ?lr \<le> S"
  proof (cases "int r = P - 1")
    case True
    then show ?thesis by (simp add: local_rows_def)
  next
    case False
    then have "int r + 1 \<le> P - 1" using r by linarith
    then have "(int r + 1) * ?q \<le> (P - 1) * ?q"
      using q by (intro mult_right_mono) simp_all
    then show ?thesis
      using False fit by (simp add: local_rows_def algebra_simps)
  qed
  have rq: "int (r * nat ?q) = int r * ?q"
    using q by simp
  let ?i0 = "r * nat ?q + k"
  show ?thesis
  proof (cases "1 \<le> c \<and> int c \<le> S")
    case False
    then have "c = 0 \<or> c = nat (cols ?a - 1)"
      using c by (simp add: dims) linarith
    then show ?thesis
      unfolding rb using clear_border_nth [OF wf kr cc] False by auto
  next
    case True
    have ring: "\<not> (k = 0 \<or> k = nat (rows ?a - 1) \<or> c = 0 \<or> c = nat (cols ?a - 1))"
      using k True by (simp add: dims) linarith
    have i0: "int ?i0 = int r * ?q + int k"
      using rq by (simp only: of_nat_add)
    have kap: "?\<kappa> ?i0 = k"
      unfolding start i0 by simp
    have "?filled ! ?\<kappa> ?i0 ! c = temp_cell rand_max rnd S ?i0 c"
    proof (rule nth_fill_rows)
      have "1 \<le> ?i0" "?i0 < nat (S + 1)"
        using k top i0 by linarith+
      then show "?i0 \<in> set [1..<nat (S + 1)]"
        by simp
      show "?cnd ?i0"
        unfolding start "end" i0 using k by simp
      show "i = ?i0" if "i \<in> set [1..<nat (S + 1)]" "?cnd i" "?\<kappa> i = ?\<kappa> ?i0" for i
      proof -
        have "nat (int i - ?start + 1) = k"
          using that(3) unfolding kap .
        then have "int i - ?start + 1 = int k"
          using that(2) by linarith
        then have "int i = int ?i0"
          unfolding start i0 by simp
        then show ?thesis
          by (simp only: of_nat_eq_iff)
      qed
      have "1 \<le> c" "c < nat (S + 1)"
        using True by linarith+
      then show "c \<in> set [1..<nat (S + 1)]"
        by simp
      show "?\<kappa> ?i0 < length (elems ?board)"
        unfolding kap using k by (simp add: build_array_def)
      then show "c < length (elems ?board ! ?\<kappa> ?i0)"
        using c unfolding kap by (simp add: build_array_def)
    qed
    then have "?filled ! k ! c = temp_cell rand_max rnd S ?i0 c"
      unfolding kap .
    then show ?thesis
      unfolding rb using clear_border_nth [OF wf kr cc] ring True by simp
  qed
qed


lemma partition_top:
  assumes vp: "valid_partition P S" and r: "r < nat P"
  shows "int r * rows_per_process P S + local_rows P (int r) S \<le> S"
    "int r = P - 1 \<Longrightarrow> int r * rows_per_process P S + local_rows P (int r) S = S"
proof -
  let ?q = "rows_per_process P S"
  have P: "1 \<le> P" and S: "0 < S" and fit: "(P - 1) * ?q \<le> S"
    using vp by (simp_all add: valid_partition_def)
  have q: "1 \<le> ?q"
    using P S by (rule rows_per_process_pos)
  show "int r * ?q + local_rows P (int r) S \<le> S"
  proof (cases "int r = P - 1")
    case True
    then show ?thesis by (simp add: local_rows_def)
  next
    case False
    then have "int r + 1 \<le> P - 1" using r by linarith
    then have "(int r + 1) * ?q \<le> (P - 1) * ?q"
      using q by (intro mult_right_mono) simp_all
    then show ?thesis
      using False fit by (simp add: local_rows_def algebra_simps)
  qed
  show "int r * ?q + local_rows P (int r) S = S" if "int r = P - 1"
    using that by (simp add: local_rows_def)
qed

lemma int_row_index: "0 \<le> q \<Longrightarrow> int (r * nat q + k) = int r * q + int k"
  by simp

lemma local_rows_one [simp]: "local_rows 1 0 S = S"
  by (simp add: local_rows_def)

lemma slices_initial:
  assumes vp: "valid_partition P S"
  shows "slices P S (fst (initial_boards rand_max rnd u1 u2 P S))
           (fst (initial_boards rand_max rnd v1 v2 1 S) ! 0)"
proof -
  let ?q = "rows_per_process P S"
  have P: "1 \<le> P" and S: "0 < S"
    using vp by (simp_all add: valid_partition_def)
  have q: "1 \<le> ?q"
    using P S by (rule rows_per_process_pos)
  have vp1: "valid_partition 1 S"
    using S by (rule valid_partition_one)
  have g: "fst (initial_boards rand_max rnd v1 v2 1 S) ! 0 = random_board rand_max rnd (v1 0) 1 (int 0) S"
    by (simp add: initial_boards_def)
  have "elems (fst (initial_boards rand_max rnd u1 u2 P S) ! r) ! k ! c
      = elems (random_board rand_max rnd (v1 0) 1 (int 0) S) ! (r * nat ?q + k) ! c"
    if r: "r < nat P" and k: "1 \<le> k" "int k \<le> local_rows P (int r) S" and c: "c < nat (S + 2)"
    for r k c
  proof -
    have b: "fst (initial_boards rand_max rnd u1 u2 P S) ! r
        = random_board rand_max rnd (u1 r) P (int r) S"
      using r by (simp add: initial_boards_def)
    have i0: "int (r * nat ?q + k) = int r * ?q + int k"
      using q by (intro int_row_index) simp
    have k1: "1 \<le> r * nat ?q + k"
      using k by linarith
    have "int (r * nat ?q + k) \<le> S"
      unfolding i0 using k partition_top(1) [OF vp r] by linarith
    then have k2: "int (r * nat ?q + k) \<le> local_rows 1 (int 0) S"
      by (simp only: of_nat_0 local_rows_one)
    have "elems (random_board rand_max rnd (v1 0) 1 (int 0) S) ! (r * nat ?q + k) ! c
        = (if 1 \<le> c \<and> int c \<le> S
           then temp_cell rand_max rnd S (0 * nat (rows_per_process 1 S) + (r * nat ?q + k)) c
           else 0)"
      by (rule random_board_nth [OF vp1 _ k1 k2 c]) simp
    then show ?thesis
      unfolding b random_board_nth [OF vp r k c] by simp
  qed
  then show ?thesis
    unfolding slices_def g by blast
qed

lemma ring_clearD:
  assumes sh: "board_shape P S r b" and rc: "ring_clear P r b"
    and L: "0 \<le> local_rows P r S" and S: "0 < S"
  shows "k < nat (local_rows P r S + 2) \<Longrightarrow> elems b ! k ! 0 = 0"
    "k < nat (local_rows P r S + 2) \<Longrightarrow> elems b ! k ! nat (S + 1) = 0"
    "r = 0 \<Longrightarrow> c < nat (S + 2) \<Longrightarrow> elems b ! 0 ! c = 0"
    "r = P - 1 \<Longrightarrow> c < nat (S + 2) \<Longrightarrow> elems b ! nat (local_rows P r S + 1) ! c = 0"
proof -
  note sb = board_shapeD [OF sh]
  have e: "nat (cols b - 1) = nat (S + 1)" "nat (rows b - 1) = nat (local_rows P r S + 1)"
    using sb(1,2) by simp_all
  have l0: "length (elems b ! 0) = nat (S + 2)"
    and ll: "length (elems b ! nat (local_rows P r S + 1)) = nat (S + 2)"
    using L by (intro sb(4); simp)+
  note rc' = rc [unfolded ring_clear_iff e sb(3) l0 ll]
  show "k < nat (local_rows P r S + 2) \<Longrightarrow> elems b ! k ! 0 = 0"
    "k < nat (local_rows P r S + 2) \<Longrightarrow> elems b ! k ! nat (S + 1) = 0"
    "r = 0 \<Longrightarrow> c < nat (S + 2) \<Longrightarrow> elems b ! 0 ! c = 0"
    "r = P - 1 \<Longrightarrow> c < nat (S + 2) \<Longrightarrow> elems b ! nat (local_rows P r S + 1) ! c = 0"
    using rc' by simp_all
qed

lemma slicesD:
  assumes "slices P S bs g" "r < nat P" "1 \<le> k" "int k \<le> local_rows P (int r) S"
    "c < nat (S + 2)"
  shows "elems (bs ! r) ! k ! c = elems g ! (r * nat (rows_per_process P S) + k) ! c"
  using assms unfolding slices_def by blast

lemma exchange_slices:
  assumes vp: "valid_partition P S"
    and shapes: "\<forall>q<nat P. board_shape P S (int q) (bs ! q)"
    and rings: "\<forall>q<nat P. ring_clear P (int q) (bs ! q)"
    and gshape: "board_shape 1 S 0 g" and gring: "ring_clear 1 0 g"
    and rel: "slices P S bs g"
    and ex: "exchange P bs = Some bs'"
    and r: "r < nat P" and k: "int k \<le> local_rows P (int r) S + 1" and c: "c < nat (S + 2)"
  shows "elems (bs' ! r) ! k ! c = elems g ! (r * nat (rows_per_process P S) + k) ! c"
proof -
  let ?q = "rows_per_process P S"
  let ?L = "\<lambda>r. local_rows P (int r) S"
  have P: "1 \<le> P" and S: "0 < S"
    using vp by (simp_all add: valid_partition_def)
  have q: "1 \<le> ?q"
    using P S by (rule rows_per_process_pos)
  have L: "0 \<le> ?L t" if "t < nat P" for t
    using vp that by (intro local_rows_nonneg) simp_all
  have idx: "int (t * nat ?q + j) = int t * ?q + int j" for t j
    using q by (intro int_row_index) simp
  obtain bs2 where ex2: "exchange P bs = Some bs2"
    and n: "\<And>r i c. r < nat P \<Longrightarrow> i < nat (?L r + 2) \<Longrightarrow> c < nat (S + 2) \<Longrightarrow>
       elems (bs2 ! r) ! i ! c =
        (if i = 0 \<and> r \<noteq> 0 \<and> 1 \<le> c \<and> c \<le> nat S
         then elems (bs ! (r - 1)) ! nat ?q ! c
         else if i = nat (?L r + 1) \<and> int r \<noteq> P - 1 \<and> 1 \<le> c \<and> c \<le> nat S
         then elems (bs ! Suc r) ! 1 ! c
         else elems (bs ! r) ! i ! c)"
    by (rule exchange_props [OF vp shapes]) (rule that)
  have bs2: "bs2 = bs'"
    using ex ex2 by simp
  note n = n [unfolded bs2]
  have kk: "k < nat (?L r + 2)"
    using k L [OF r] by linarith
  note nk = n [OF r kk c]
  \<comment> \<open>the single board\<close>
  have g0: "(0::int) \<le> local_rows 1 0 S"
    using S by simp
  note gr = ring_clearD [OF gshape gring g0 S, unfolded local_rows_one]
  \<comment> \<open>the board of the process\<close>
  note br = ring_clearD [OF shapes [rule_format, OF r] rings [rule_format, OF r] L [OF r] S]
  have top: "int r * ?q + ?L r \<le> S"
    by (rule partition_top(1) [OF vp r])
  have grow: "r * nat ?q + k < nat (S + 2)"
    using idx [of r k] top k by linarith
  consider (ringcol) "c = 0 \<or> c = nat (S + 1)"
    | (inner) "1 \<le> k" "int k \<le> ?L r" "1 \<le> c" "c \<le> nat S"
    | (first) "k = 0" "1 \<le> c" "c \<le> nat S"
    | (last) "k = nat (?L r + 1)" "1 \<le> c" "c \<le> nat S"
    using k c L [OF r] by linarith
  then show ?thesis
  proof cases
    case ringcol
    then have "elems (bs' ! r) ! k ! c = elems (bs ! r) ! k ! c"
      using nk S by auto
    also have "\<dots> = 0"
      using ringcol br(1,2) [OF kk] by auto
    also have "0 = elems g ! (r * nat ?q + k) ! c"
      using ringcol gr(1,2) [OF grow] by auto
    finally show ?thesis .
  next
    case inner
    have "elems (bs' ! r) ! k ! c = elems (bs ! r) ! k ! c"
      using nk inner L [OF r] by auto
    then show ?thesis
      using slicesD [OF rel r inner(1,2) c] by simp
  next
    case first
    show ?thesis
    proof (cases "r = 0")
      case True
      have "elems (bs' ! r) ! k ! c = elems (bs ! r) ! 0 ! c"
        using nk first True L [OF r] by auto
      also have "\<dots> = 0"
        using br(3) [OF _ c] True by simp
      also have "0 = elems g ! (r * nat ?q + k) ! c"
        using gr(3) [OF _ c] True first by simp
      finally show ?thesis .
    next
      case False
      then have r1: "r - 1 < nat P" "int (r - 1) \<noteq> P - 1" "Suc (r - 1) = r"
        using r by linarith+
      have La: "?L (r - 1) = ?q"
        by (rule local_rows_inner) (fact r1(2))
      have "elems (bs' ! r) ! k ! c = elems (bs ! (r - 1)) ! nat ?q ! c"
        using nk first False by simp
      also have "\<dots> = elems g ! ((r - 1) * nat ?q + nat ?q) ! c"
      proof (rule slicesD [OF rel r1(1) _ _ c])
        show "1 \<le> nat ?q" using q by linarith
        show "int (nat ?q) \<le> ?L (r - 1)" unfolding La using q by simp
      qed
      also have "(r - 1) * nat ?q + nat ?q = r * nat ?q + k"
      proof -
        have "r * nat ?q = Suc (r - 1) * nat ?q"
          by (simp only: r1(3))
        then show ?thesis
          using first(1) by simp
      qed
      finally show ?thesis .
    qed
  next
    case last
    show ?thesis
    proof (cases "int r = P - 1")
      case True
      have "elems (bs' ! r) ! k ! c = elems (bs ! r) ! nat (?L r + 1) ! c"
        using nk last True L [OF r] by auto
      also have "\<dots> = 0"
        using br(4) [OF True c] .
      also have "0 = elems g ! nat (S + 1) ! c"
        using gr(4) [OF _ c] by simp
      also have "nat (S + 1) = r * nat ?q + k"
        using idx [of r k] partition_top(2) [OF vp r True] last(1) L [OF r] by linarith
      finally show ?thesis .
    next
      case False
      then have r1: "Suc r < nat P"
        using r by linarith
      have Lr: "?L r = ?q"
        by (rule local_rows_inner) (fact False)
      have k0: "k \<noteq> 0"
        using last(1) L [OF r] by linarith
      have e: "elems (bs' ! r) ! k ! c = elems (bs ! Suc r) ! 1 ! c"
        using nk last False k0 by simp
      have i: "r * nat ?q + k = Suc r * nat ?q + 1"
        using last(1) q unfolding Lr by (simp add: nat_add_distrib)
      show ?thesis
      proof (cases "1 \<le> ?L (Suc r)")
        case True
        have "elems (bs ! Suc r) ! 1 ! c = elems g ! (Suc r * nat ?q + 1) ! c"
          by (rule slicesD [OF rel r1 _ _ c]) (use True in simp_all)
        then show ?thesis
          unfolding e i .
      next
        case F: False
        then have L0: "?L (Suc r) = 0"
          using L [OF r1] by linarith
        have lastp: "int (Suc r) = P - 1"
        proof (rule ccontr)
          assume "int (Suc r) \<noteq> P - 1"
          then have "?L (Suc r) = ?q"
            by (rule local_rows_inner)
          with L0 q show False by linarith
        qed
        note brs = ring_clearD [OF shapes [rule_format, OF r1] rings [rule_format, OF r1]
            L [OF r1] S]
        have "elems (bs ! Suc r) ! nat (?L (Suc r) + 1) ! c = 0"
          by (rule brs(4) [OF lastp c])
        then have z: "elems (bs ! Suc r) ! 1 ! c = 0"
          unfolding L0 by simp
        have "Suc r * nat ?q + 1 = nat (S + 1)"
          using idx [of "Suc r" 1] partition_top(2) [OF vp r1 lastp] L0 by linarith
        then have "elems g ! (Suc r * nat ?q + 1) ! c = 0"
          using gr(4) [OF _ c] by simp
        then show ?thesis
          unfolding e i z by simp
      qed
    qed
  qed
qed

lemma update_slices:
  assumes vp: "valid_partition P S"
    and len: "length bs' = nat P" "length nbs = nat P"
    and shapes: "\<forall>q<nat P. board_shape P S (int q) (bs' ! q)"
    and nshapes: "\<forall>q<nat P. board_shape P S (int q) (nbs ! q)"
    and nrings: "\<forall>q<nat P. ring_clear P (int q) (nbs ! q)"
    and gshape: "board_shape 1 S 0 g'"
    and ngshape: "board_shape 1 S 0 ng" and ngring: "ring_clear 1 0 ng"
    and ext: "\<And>r k c. r < nat P \<Longrightarrow> int k \<le> local_rows P (int r) S + 1 \<Longrightarrow> c < nat (S + 2) \<Longrightarrow>
        elems (bs' ! r) ! k ! c = elems g' ! (r * nat (rows_per_process P S) + k) ! c"
  shows "slices P S (map (\<lambda>(b, nb). update_cells b nb) (zip bs' nbs)) (update_cells g' ng)"
  unfolding slices_def
proof (intro allI impI, elim conjE)
  fix r k c
  assume r: "r < nat P" and k: "1 \<le> k" "int k \<le> local_rows P (int r) S" and c: "c < nat (S + 2)"
  let ?q = "rows_per_process P S"
  let ?L = "local_rows P (int r) S"
  let ?b = "bs' ! r" and ?nb = "nbs ! r"
  let ?i = "r * nat ?q + k"
  have P: "1 \<le> P" and S: "0 < S"
    using vp by (simp_all add: valid_partition_def)
  have q: "1 \<le> ?q"
    using P S by (rule rows_per_process_pos)
  have L: "0 \<le> ?L"
    using vp r by (intro local_rows_nonneg) simp_all
  have idx: "int ?i = int r * ?q + int k"
    using q by (intro int_row_index) simp
  have top: "int r * ?q + ?L \<le> S"
    by (rule partition_top(1) [OF vp r])
  have nth: "map (\<lambda>(b, nb). update_cells b nb) (zip bs' nbs) ! r = update_cells ?b ?nb"
    using r len by simp
  note sb = board_shapeD [OF shapes [rule_format, OF r]]
  note snb = board_shapeD [OF nshapes [rule_format, OF r]]
  note sg = board_shapeD [OF gshape, unfolded local_rows_one]
  note sng = board_shapeD [OF ngshape, unfolded local_rows_one]
  have g0: "(0::int) \<le> local_rows 1 0 S"
    using S by simp
  note ngr = ring_clearD [OF ngshape ngring g0 S, unfolded local_rows_one]
  note nbr = ring_clearD [OF nshapes [rule_format, OF r] nrings [rule_format, OF r] L S]
  have kk: "k < nat (?L + 2)"
    using k by linarith
  have ii: "?i < nat (S + 2)" "1 \<le> ?i" "int ?i \<le> S"
    using idx top k by linarith+
  have lhs: "elems (update_cells ?b ?nb) ! k ! c =
      (if 1 \<le> c \<and> int c \<le> S
       then apply_rules (elems ?b ! k ! c) (nbrs (elems ?b) k c) else elems ?nb ! k ! c)"
    unfolding update_cells_nth sb(1,2) snb(3) snb(4) [OF kk]
    using k kk c by simp
  have rhs: "elems (update_cells g' ng) ! ?i ! c =
      (if 1 \<le> c \<and> int c \<le> S
       then apply_rules (elems g' ! ?i ! c) (nbrs (elems g') ?i c) else elems ng ! ?i ! c)"
    unfolding update_cells_nth sg(1,2) sng(3) sng(4) [OF ii(1)]
    using ii c by simp
  show "elems (map (\<lambda>(b, nb). update_cells b nb) (zip bs' nbs) ! r) ! k ! c
      = elems (update_cells g' ng) ! ?i ! c"
  proof (cases "1 \<le> c \<and> int c \<le> S")
    case False
    then have "c = 0 \<or> c = nat (S + 1)"
      using c by linarith
    then have "elems ?nb ! k ! c = 0" "elems ng ! ?i ! c = 0"
      using nbr(1,2) [OF kk] ngr(1,2) [OF ii(1)] by auto
    then show ?thesis
      unfolding nth lhs rhs if_not_P [OF False] by simp
  next
    case True
    have e: "elems ?b ! k' ! c' = elems g' ! (r * nat ?q + k') ! c'"
      if "int k' \<le> ?L + 1" "c' < nat (S + 2)" for k' c'
      using ext [OF r that] .
    have km: "r * nat ?q + k - 1 = r * nat ?q + (k - 1)"
      and kp: "r * nat ?q + k + 1 = r * nat ?q + (k + 1)"
      using k(1) by simp_all
    have kb: "int (k - 1) \<le> ?L + 1" "int k \<le> ?L + 1" "int (k + 1) \<le> ?L + 1"
      using k by linarith+
    have cb: "c - 1 < nat (S + 2)" "c < nat (S + 2)" "c + 1 < nat (S + 2)"
      using True c by linarith+
    have "nbrs (elems ?b) k c = nbrs (elems g') ?i c"
      unfolding nbrs_def km kp
      by (simp only: e [OF kb(1) cb(1)] e [OF kb(1) cb(2)] e [OF kb(1) cb(3)]
          e [OF kb(2) cb(1)] e [OF kb(2) cb(3)]
          e [OF kb(3) cb(1)] e [OF kb(3) cb(2)] e [OF kb(3) cb(3)])
    moreover have "elems ?b ! k ! c = elems g' ! ?i ! c"
      by (rule e [OF kb(2) cb(2)])
    ultimately show ?thesis
      unfolding nth lhs rhs if_P [OF True] by simp
  qed
qed

lemma generation_joint:
  assumes vp: "valid_partition P S"
    and invP: "run_inv P S (bs, nbs)" and inv1: "run_inv 1 S (gs, ngs)"
    and rel: "slices P S bs (gs ! 0)"
  shows "\<exists>bs2 nbs2 gs2 ngs2.
     generation P (bs, nbs) = Some (bs2, nbs2) \<and> generation 1 (gs, ngs) = Some (gs2, ngs2) \<and>
     run_inv P S (bs2, nbs2) \<and> run_inv 1 S (gs2, ngs2) \<and> slices P S bs2 (gs2 ! 0)"
proof -
  let ?q = "rows_per_process P S"
  have P: "1 \<le> P" and S: "0 < S"
    using vp by (simp_all add: valid_partition_def)
  have q: "1 \<le> ?q"
    using P S by (rule rows_per_process_pos)
  have vp1: "valid_partition 1 S"
    using S by (rule valid_partition_one)
  obtain bs' where exP: "exchange P bs = Some bs'"
    and genP: "generation P (bs, nbs) = Some (map (\<lambda>(b, nb). update_cells b nb) (zip bs' nbs), bs')"
    and invP': "run_inv P S (map (\<lambda>(b, nb). update_cells b nb) (zip bs' nbs), bs')"
    by (rule generation_inv [OF vp invP]) (rule that)
  obtain gs' where ex1: "exchange 1 gs = Some gs'"
    and gen1: "generation 1 (gs, ngs) = Some (map (\<lambda>(b, nb). update_cells b nb) (zip gs' ngs), gs')"
    and inv1': "run_inv 1 S (map (\<lambda>(b, nb). update_cells b nb) (zip gs' ngs), gs')"
    by (rule generation_inv [OF vp1 inv1]) (rule that)
  note iP = run_invD [OF invP] and iP' = run_invD [OF invP']
  note i1 = run_invD [OF inv1] and i1' = run_invD [OF inv1']
  have z: "(0::nat) < nat 1"
    by simp
  have gsh: "board_shape 1 S 0 (gs ! 0)" and gri: "ring_clear 1 0 (gs ! 0)"
    and ngsh: "board_shape 1 S 0 (ngs ! 0)" and ngri: "ring_clear 1 0 (ngs ! 0)"
    and gsh': "board_shape 1 S 0 (gs' ! 0)"
    using i1(3,4,5,6) [rule_format, OF z] i1'(5) [rule_format, OF z] by simp_all
  \<comment> \<open>the single process exchanges nothing\<close>
  obtain gs2 where ex2: "exchange 1 gs = Some gs2"
    and n1: "\<And>r i c. r < nat 1 \<Longrightarrow> i < nat (local_rows 1 (int r) S + 2) \<Longrightarrow> c < nat (S + 2) \<Longrightarrow>
       elems (gs2 ! r) ! i ! c =
        (if i = 0 \<and> r \<noteq> 0 \<and> 1 \<le> c \<and> c \<le> nat S
         then elems (gs ! (r - 1)) ! nat (rows_per_process 1 S) ! c
         else if i = nat (local_rows 1 (int r) S + 1) \<and> int r \<noteq> 1 - 1 \<and> 1 \<le> c \<and> c \<le> nat S
         then elems (gs ! Suc r) ! 1 ! c
         else elems (gs ! r) ! i ! c)"
    by (rule exchange_props [OF vp1 i1(3)]) (rule that)
  have gs2: "gs2 = gs'"
    using ex1 ex2 by simp
  have same: "elems (gs' ! 0) ! i ! c = elems (gs ! 0) ! i ! c"
    if "i < nat (S + 2)" "c < nat (S + 2)" for i c
    using n1 [OF z, of i c] that unfolding gs2 by simp
  have ext: "elems (bs' ! r) ! k ! c = elems (gs' ! 0) ! (r * nat ?q + k) ! c"
    if r: "r < nat P" and k: "int k \<le> local_rows P (int r) S + 1" and c: "c < nat (S + 2)"
    for r k c
  proof -
    have "int (r * nat ?q + k) = int r * ?q + int k"
      using q by (intro int_row_index) simp
    then have "r * nat ?q + k < nat (S + 2)"
      using partition_top(1) [OF vp r] k by linarith
    then show ?thesis
      using exchange_slices [OF vp iP(3) iP(4) gsh gri rel exP r k c] same [OF _ c] by simp
  qed
  have "slices P S (map (\<lambda>(b, nb). update_cells b nb) (zip bs' nbs))
          (update_cells (gs' ! 0) (ngs ! 0))"
    using vp iP'(2) iP(2) iP'(5) iP(5) iP(6) gsh' ngsh ngri ext by (rule update_slices)
  moreover have "map (\<lambda>(b, nb). update_cells b nb) (zip gs' ngs) ! 0
      = update_cells (gs' ! 0) (ngs ! 0)"
    using i1'(2) i1(2) by simp
  ultimately show ?thesis
    using genP gen1 invP' inv1' by auto
qed

lemma generations_joint:
  assumes vp: "valid_partition P S"
    and invP: "run_inv P S stP" and inv1: "run_inv 1 S st1"
    and rel: "slices P S (fst stP) (fst st1 ! 0)"
  shows "\<exists>stP' st1'.
     generations P n stP = Some stP' \<and> generations 1 n st1 = Some st1' \<and>
     run_inv P S stP' \<and> run_inv 1 S st1' \<and> slices P S (fst stP') (fst st1' ! 0)"
proof (induction n)
  case 0
  show ?case
    using invP inv1 rel by simp
next
  case (Suc n)
  then obtain bs nbs gs ngs where st: "generations P n stP = Some (bs, nbs)"
    "generations 1 n st1 = Some (gs, ngs)"
    "run_inv P S (bs, nbs)" "run_inv 1 S (gs, ngs)" "slices P S bs (gs ! 0)"
    by (metis fst_conv surj_pair)
  from generation_joint [OF vp st(3,4,5)] show ?case
    using st(1,2) by auto
qed

lemma global_row_one:
  assumes S: "0 < S" and i: "1 \<le> i" "int i \<le> S"
  shows "global_row 1 S gs i = take (nat S) (drop 1 (elems (gs ! 0) ! i))"
proof -
  have "(int i - 1) div S = 0"
    using i by (intro div_pos_pos_trivial) simp_all
  then have "process_owning_row 1 (int i) S = 0"
    using i S by (simp add: process_owning_row_def sdiv_nonneg)
  then show ?thesis
    by (simp add: global_row_def local_start_row_def)
qed

lemma global_row_slices:
  assumes vp: "valid_partition P S"
    and shapes: "\<forall>q<nat P. board_shape P S (int q) (bs ! q)"
    and gshape: "board_shape 1 S 0 (gs ! 0)"
    and rel: "slices P S bs (gs ! 0)"
    and i: "1 \<le> i" "int i \<le> S"
  shows "global_row P S bs i = global_row 1 S gs i"
proof -
  let ?q = "rows_per_process P S"
  define p where "p = (int i - 1) div ?q"
  define k where "k = nat (int i - p * ?q)"
  have P: "1 \<le> P" and S: "0 < S" and fit: "(P - 1) * ?q \<le> S"
    using vp by (simp_all add: valid_partition_def)
  have q: "1 \<le> ?q"
    using P S by (rule rows_per_process_pos)
  have q0: "0 < ?q"
    using q by simp
  have lo: "p * ?q \<le> int i - 1" and hi: "int i - 1 < (p + 1) * ?q"
    unfolding p_def by (rule int_div_bounds [OF q0])+
  have p0: "0 \<le> p"
    unfolding p_def using i q0 by (simp add: pos_imp_zdiv_nonneg_iff)
  have cov: "S \<le> P * ?q"
    using P S by (intro rows_per_process_covers) simp_all
  have pP: "p < P"
  proof (rule ccontr)
    assume "\<not> p < P"
    then have "P * ?q \<le> p * ?q"
      using q by (intro mult_right_mono) simp_all
    with lo cov i show False by linarith
  qed
  have own: "process_owning_row P (int i) S = p"
    using i q0 by (simp add: process_owning_row_def p_def sdiv_nonneg)
  have r: "nat p < nat P" and rp: "int (nat p) = p"
    using p0 pP by simp_all
  have k1: "1 \<le> k" and ki: "int k = int i - p * ?q"
    unfolding k_def using lo by linarith+
  have kq: "int k \<le> ?q"
    using ki hi by (simp add: algebra_simps)
  have kL: "int k \<le> local_rows P (int (nat p)) S"
  proof (cases "p = P - 1")
    case True
    then show ?thesis
      unfolding rp ki using i by (simp add: local_rows_def)
  next
    case False
    then show ?thesis
      unfolding rp using kq by (simp add: local_rows_def)
  qed
  have kk: "k < nat (local_rows P (int (nat p)) S + 2)"
    using kL by linarith
  have idx: "nat p * nat ?q + k = i"
  proof -
    have "int (nat p * nat ?q + k) = int (nat p) * ?q + int k"
      using q by (intro int_row_index) simp
    then have "int (nat p * nat ?q + k) = int i"
      unfolding rp ki by simp
    then show ?thesis
      by (simp only: of_nat_eq_iff)
  qed
  have row: "global_row P S bs i = take (nat S) (drop 1 (elems (bs ! nat p) ! k))"
    unfolding global_row_def own Let_def k_def
    by (simp add: local_start_row_def algebra_simps)
  note sb = board_shapeD [OF shapes [rule_format, OF r]]
  note sg = board_shapeD [OF gshape, unfolded local_rows_one]
  have ig: "i < nat (S + 2)"
    using i by linarith
  have len1: "length (elems (bs ! nat p) ! k) = nat (S + 2)"
    by (rule sb(4) [OF kk])
  have len2: "length (elems (gs ! 0) ! i) = nat (S + 2)"
    by (rule sg(4) [OF ig])
  have "take (nat S) (drop 1 (elems (bs ! nat p) ! k))
      = take (nat S) (drop 1 (elems (gs ! 0) ! i))"
  proof (rule nth_equalityI)
    show "length (take (nat S) (drop 1 (elems (bs ! nat p) ! k)))
        = length (take (nat S) (drop 1 (elems (gs ! 0) ! i)))"
      by (simp add: len1 len2)
  next
    fix j
    assume "j < length (take (nat S) (drop 1 (elems (bs ! nat p) ! k)))"
    then have j: "j < nat S"
      by simp
    then have c: "Suc j < nat (S + 2)"
      by linarith
    have "elems (bs ! nat p) ! k ! Suc j = elems (gs ! 0) ! (nat p * nat ?q + k) ! Suc j"
      by (rule slicesD [OF rel r k1 kL c])
    then show "take (nat S) (drop 1 (elems (bs ! nat p) ! k)) ! j
        = take (nat S) (drop 1 (elems (gs ! 0) ! i)) ! j"
      unfolding idx using j c by (simp add: len1 len2)
  qed
  then show ?thesis
    unfolding row global_row_one [OF S i] .
qed

lemma global_grid_slices:
  assumes vp: "valid_partition P S"
    and shapes: "\<forall>q<nat P. board_shape P S (int q) (bs ! q)"
    and gshape: "board_shape 1 S 0 (gs ! 0)"
    and rel: "slices P S bs (gs ! 0)"
  shows "global_grid P S bs = global_grid 1 S gs"
  unfolding global_grid_def
proof (rule map_cong [OF refl])
  fix i assume "i \<in> set [1..<nat (S + 1)]"
  then have "1 \<le> i" "int i \<le> S"
    by simp_all linarith
  then show "global_row P S bs i = global_row 1 S gs i"
    by (rule global_row_slices [OF vp shapes gshape rel])
qed

text \<open>
  With a valid partition the run on \<open>P\<close> processes and the run on one process
  complete every generation and end with the same global grid.
\<close>

lemma decomposition_equivalence:
  assumes vp: "valid_partition P S"
  shows "\<exists>stP st1.
     mpi_run rand_max rnd u1 u2 P S n = Some stP \<and>
     mpi_run rand_max rnd v1 v2 1 S n = Some st1 \<and>
     global_grid P S (fst stP) = global_grid 1 S (fst st1)"
proof -
  have S: "0 < S"
    using vp by (simp add: valid_partition_def)
  have vp1: "valid_partition 1 S"
    using S by (rule valid_partition_one)
  have iP: "run_inv P S (initial_boards rand_max rnd u1 u2 P S)"
    by (rule run_inv_initial [OF vp])
  have i1: "run_inv 1 S (initial_boards rand_max rnd v1 v2 1 S)"
    by (rule run_inv_initial [OF vp1])
  have rel0: "slices P S (fst (initial_boards rand_max rnd u1 u2 P S))
      (fst (initial_boards rand_max rnd v1 v2 1 S) ! 0)"
    by (rule slices_initial [OF vp])
  obtain bs nbs gs ngs where
    run: "mpi_run rand_max rnd u1 u2 P S n = Some (bs, nbs)"
      "mpi_run rand_max rnd v1 v2 1 S n = Some (gs, ngs)"
    and inv: "run_inv P S (bs, nbs)" "run_inv 1 S (gs, ngs)"
    and rel: "slices P S bs (gs ! 0)"
    using generations_joint [OF vp iP i1 rel0, of n]
    unfolding mpi_run_def by (metis fst_conv surj_pair)
  have z: "(0::nat) < nat 1"
    by simp
  have "global_grid P S bs = global_grid 1 S gs"
    using vp run_invD(3) [OF inv(1)] run_invD(3) [OF inv(2), rule_format, OF z] rel
    by (intro global_grid_slices) simp_all
  then show ?thesis
    using run by simp
qed

end
